theory Spec2Isabelle
  imports Main "HOL-Library.Word" "HOL-Library.Sublist"
begin

unbundle bit_operations_syntax

section \<open>Data model of \<^verbatim>\<open>AVR_code.c\<close>\<close>

text \<open>
  The program is a single C file for an ATmega328PB. Its globals become the fields of
  one record; every C function and interrupt handler becomes a function on that record.
  \<^verbatim>\<open>uint8_t\<close>, \<^verbatim>\<open>uint16_t\<close> and \<^verbatim>\<open>uint32_t\<close> are words, so \<open>+\<close> and \<open>-\<close> wrap as
  in C. The two transmitters are modelled by the list of bytes handed to them so far
  (\<open>uart0_tx\<close>, \<open>uart1_tx\<close>); the busy-wait on the hardware's data-register-empty
  flag and the peripheral set-up registers are outside the model.
\<close>

type_synonym u8 = "8 word"
type_synonym u16 = "16 word"
type_synonym u32 = "32 word"

datatype gprs_state_t =
    GPRS_IDLE | GPRS_AT | GPRS_ATE0 | GPRS_CPIN | GPRS_CREG
  | GPRS_CSQ | GPRS_APN | GPRS_ATTACH | GPRS_NETOPEN | GPRS_READY

datatype http_state_t =
    HTTP_IDLE | HTTP_TERM | HTTP_INIT | HTTP_CID | HTTP_URL
  | HTTP_ACTION | HTTP_COMPLETE

record state =
  meterBuf :: "u8 list"
  meterIdx :: u8
  frameReady :: bool
  tick10ms :: u32
  millisCnt :: u32
  gprsState :: gprs_state_t
  gprsTimer :: u32
  gprsReady :: bool
  httpState :: http_state_t
  httpTimer :: u32
  httpUrl :: "char list"
  meterKickTimer :: u16
  portb :: u8
  uart0_tx :: "u8 list"
  uart1_tx :: "char list"

text \<open>The one way a handler can go wrong: a store outside \<^verbatim>\<open>meterBuf[44]\<close>.\<close>

datatype fault = BufferOverrun

subsection \<open>Configuration constants and the frame layout\<close>

definition COMMAND_DELAY_MS :: u32 where "COMMAND_DELAY_MS = 2000"
definition HTTP_DELAY_MS :: u32 where "HTTP_DELAY_MS = 1500"

definition URL_BUF_LEN :: nat where "URL_BUF_LEN = 256"

definition IDX_VOLTAGE :: nat where "IDX_VOLTAGE = 0"
definition IDX_CURRENT :: nat where "IDX_CURRENT = 2"
definition IDX_POWER_FACTOR :: nat where "IDX_POWER_FACTOR = 4"
definition IDX_LOAD_KW :: nat where "IDX_LOAD_KW = 5"
definition IDX_KWH_TOTAL :: nat where "IDX_KWH_TOTAL = 11"
definition IDX_DATE :: nat where "IDX_DATE = 29"
definition IDX_MONTH :: nat where "IDX_MONTH = 30"
definition IDX_YEAR :: nat where "IDX_YEAR = 31"
definition IDX_HOUR :: nat where "IDX_HOUR = 32"
definition IDX_MINUTE :: nat where "IDX_MINUTE = 33"
definition IDX_SECOND :: nat where "IDX_SECOND = 34"
definition IDX_FREQUENCY :: nat where "IDX_FREQUENCY = 35"
definition IDX_FRAME_END :: nat where "IDX_FRAME_END = 43"

definition NUL :: char where "NUL = CHR 0x00"
definition crlf :: "char list" where "crlf = [CHR 0x0D, CHR 0x0A]"
definition dquote :: "char list" where "dquote = [CHR 0x22]"

definition APN_STRING :: "char list" where "APN_STRING = ''airtelgprs.com''"
definition URL_BASE :: "char list" where
  "URL_BASE = ''http://2e40139af09b.ngrok-free.app/meter''"

text \<open>The state after C start-up: statics are zero, the enums hold their first member.\<close>

definition init_state :: state where
  "init_state = \<lparr> meterBuf = replicate 44 0, meterIdx = 0, frameReady = False,
     tick10ms = 0, millisCnt = 0,
     gprsState = GPRS_IDLE, gprsTimer = 0, gprsReady = False,
     httpState = HTTP_IDLE, httpTimer = 0, httpUrl = replicate 256 NUL,
     meterKickTimer = 0, portb = 2, uart0_tx = [], uart1_tx = [] \<rparr>"

subsection \<open>Timing and UART helpers\<close>

definition millis :: "state \<Rightarrow> u32" where
  "millis s = millisCnt s"

definition uart0_send :: "u8 \<Rightarrow> state \<Rightarrow> state" where
  "uart0_send b s = s\<lparr>uart0_tx := uart0_tx s @ [b]\<rparr>"

definition uart1_send_byte :: "char \<Rightarrow> state \<Rightarrow> state" where
  "uart1_send_byte c s = s\<lparr>uart1_tx := uart1_tx s @ [c]\<rparr>"

text \<open>\<^verbatim>\<open>while (*str) uart1_send_byte(*str++)\<close>: the bytes up to the first NUL.\<close>

fun uart1_send_str :: "char list \<Rightarrow> state \<Rightarrow> state" where
  "uart1_send_str [] s = s"
| "uart1_send_str (c # cs) s =
     (if c = NUL then s else uart1_send_str cs (uart1_send_byte c s))"

subsection \<open>Interrupt handlers\<close>

definition TIMER0_OVF_vect :: "state \<Rightarrow> state" where
  "TIMER0_OVF_vect s = s\<lparr>tick10ms := tick10ms s + 1, millisCnt := millisCnt s + 10\<rparr>"

text \<open>
  \<^verbatim>\<open>meterBuf[meterIdx++] = byte\<close> is a store through an unchecked index: outside the 44
  bytes it is a fault of the model. The sentinel test reads the buffer after the store.
\<close>

definition USART0_RX_vect :: "u8 \<Rightarrow> state \<Rightarrow> fault + state" where
  "USART0_RX_vect byte s =
     (if unat (meterIdx s) < length (meterBuf s) then
        let buf = (meterBuf s)[unat (meterIdx s) := byte];
            idx = meterIdx s + 1
        in if idx = 44 then
             Inr (s\<lparr>meterBuf := buf,
                    frameReady := (if buf ! IDX_FRAME_END = 0xDD then True else frameReady s),
                    meterIdx := 0\<rparr>)
           else Inr (s\<lparr>meterBuf := buf, meterIdx := idx\<rparr>)
      else Inl BufferOverrun)"

subsection \<open>Meter data helpers\<close>

definition get_u16 :: "u8 list \<Rightarrow> nat \<Rightarrow> u16" where
  "get_u16 buf idx = push_bit 8 (ucast (buf ! idx)) OR ucast (buf ! (idx + 1))"

definition get_u24 :: "u8 list \<Rightarrow> nat \<Rightarrow> u32" where
  "get_u24 buf idx =
     push_bit 16 (ucast (buf ! idx)) OR push_bit 8 (ucast (buf ! (idx + 1)))
       OR ucast (buf ! (idx + 2))"

subsection \<open>GPRS initialisation state machine\<close>

definition gprs_fsm :: "state \<Rightarrow> state" where
  "gprs_fsm s =
     (if gprsReady s then s
      else
        let now = millis s in
        case gprsState s of
          GPRS_IDLE \<Rightarrow>
            (uart1_send_str (''AT'' @ crlf) s)\<lparr>gprsTimer := now, gprsState := GPRS_AT\<rparr>
        | GPRS_AT \<Rightarrow>
            if now - gprsTimer s \<ge> COMMAND_DELAY_MS then
              (uart1_send_str (''ATE0'' @ crlf) s)\<lparr>gprsTimer := now, gprsState := GPRS_ATE0\<rparr>
            else s
        | GPRS_ATE0 \<Rightarrow>
            if now - gprsTimer s \<ge> COMMAND_DELAY_MS then
              (uart1_send_str (''AT+CPIN?'' @ crlf) s)\<lparr>gprsTimer := now, gprsState := GPRS_CPIN\<rparr>
            else s
        | GPRS_CPIN \<Rightarrow>
            if now - gprsTimer s \<ge> COMMAND_DELAY_MS then
              (uart1_send_str (''AT+CREG?'' @ crlf) s)\<lparr>gprsTimer := now, gprsState := GPRS_CREG\<rparr>
            else s
        | GPRS_CREG \<Rightarrow>
            if now - gprsTimer s \<ge> COMMAND_DELAY_MS then
              (uart1_send_str (''AT+CSQ'' @ crlf) s)\<lparr>gprsTimer := now, gprsState := GPRS_CSQ\<rparr>
            else s
        | GPRS_CSQ \<Rightarrow>
            if now - gprsTimer s \<ge> COMMAND_DELAY_MS then
              (uart1_send_str
                 (''AT+CGDCONT=1,'' @ dquote @ ''IP'' @ dquote @ '','' @ dquote
                    @ APN_STRING @ dquote @ crlf) s)
                \<lparr>gprsTimer := now, gprsState := GPRS_APN\<rparr>
            else s
        | GPRS_APN \<Rightarrow>
            if now - gprsTimer s \<ge> COMMAND_DELAY_MS then
              (uart1_send_str (''AT+CGATT=1'' @ crlf) s)\<lparr>gprsTimer := now, gprsState := GPRS_ATTACH\<rparr>
            else s
        | GPRS_ATTACH \<Rightarrow>
            if now - gprsTimer s \<ge> COMMAND_DELAY_MS then
              (uart1_send_str (''AT+NETOPEN'' @ crlf) s)\<lparr>gprsTimer := now, gprsState := GPRS_NETOPEN\<rparr>
            else s
        | GPRS_NETOPEN \<Rightarrow>
            if now - gprsTimer s \<ge> COMMAND_DELAY_MS then
              s\<lparr>gprsReady := True, gprsState := GPRS_READY\<rparr>
            else s
        | GPRS_READY \<Rightarrow> s)"

subsection \<open>HTTP transmission state machine\<close>

text \<open>
  \<^verbatim>\<open>build_http_url\<close> converts each raw integer to \<^verbatim>\<open>float\<close>, divides it by a power
  of ten and prints the quotient with \<^verbatim>\<open>%.Nf\<close>. In the sequencer the conversion is a
  parameter: \<open>ff p n d\<close> is the text of \<^verbatim>\<open>%.pf\<close> for the float quotient of the raw
  integer \<open>n\<close> by the divisor \<open>d\<close>, so that what does not depend on the digits holds
  for every conversion. The conversion of the code is \<open>printf_f\<close> below. Everything
  around it (the field offsets, the big-endian reads, the \<^verbatim>\<open>%02u\<close> date fields, the
  literal parts and the length bound of \<^verbatim>\<open>snprintf\<close>) is modelled as well.
\<close>

type_synonym float_fmt = "nat \<Rightarrow> nat \<Rightarrow> nat \<Rightarrow> char list"

definition digit_char :: "nat \<Rightarrow> char" where
  "digit_char n = ''0123456789'' ! n"

fun dec_digits :: "nat \<Rightarrow> char list" where
  "dec_digits n = (if n < 10 then [digit_char n]
                   else dec_digits (n div 10) @ [digit_char (n mod 10)])"

declare dec_digits.simps [simp del]

text \<open>
  Binary32 arithmetic. The raw integers are below \<open>2^24\<close> and the divisors are 10, 100,
  1000 and 100000, so both operands of the division are exact floats and the quotient
  is a normal number: the float nearest to \<open>n / d\<close>, ties to even, with a 24-bit
  significand. \<open>float_div n d\<close> is that float as a pair \<open>(m, k)\<close> standing for
  \<open>m / 2^k\<close>: \<open>normalise\<close> doubles the numerator until the quotient reaches \<open>2^23\<close>,
  then the quotient is rounded. (For \<open>d = 0\<close> or \<open>n\<close> of more than 24 bits the pair is
  not the value of the C expression; no call site gives such arguments.)
\<close>

definition round_half_even :: "nat \<Rightarrow> nat \<Rightarrow> nat" where
  "round_half_even a b =
     (let q = a div b; r = a mod b
      in if 2 * r < b then q else if b < 2 * r then q + 1 else if even q then q else q + 1)"

function normalise :: "nat \<Rightarrow> nat \<Rightarrow> nat \<Rightarrow> nat \<times> nat" where
  "normalise a b k = (if a = 0 \<or> b \<le> a then (a, k) else normalise (2 * a) b (k + 1))"
  by pat_completeness auto
termination
  by (relation "measure (\<lambda>(a, b, k). b - a)") auto

declare normalise.simps [simp del]

definition float_div :: "nat \<Rightarrow> nat \<Rightarrow> nat \<times> nat" where
  "float_div n d = (case normalise n (d * 2 ^ 23) 0 of (a, k) \<Rightarrow> (round_half_even a d, k))"

text \<open>
  \<^verbatim>\<open>%.pf\<close>: the value of the float (unchanged by the promotion to \<^verbatim>\<open>double\<close>) rounded
  to \<open>p\<close> decimals, ties to even, as the C standard asks of a correctly rounding
  library; the integer part, a point, and \<open>p\<close> digits.
\<close>

definition printf_f :: float_fmt where
  "printf_f p n d =
     (case float_div n d of (m, k) \<Rightarrow>
        let r = round_half_even (m * 10 ^ p) (2 ^ k);
            frac = dec_digits (r mod 10 ^ p)
        in dec_digits (r div 10 ^ p) @
             (if p = 0 then [] else ''.'' @ replicate (p - length frac) (CHR ''0'') @ frac))"

text \<open>\<^verbatim>\<open>%02u\<close>: decimal, padded with zeros on the left to at least two digits.\<close>

definition fmt_02u :: "u8 \<Rightarrow> char list" where
  "fmt_02u b = (let d = dec_digits (unat b) in replicate (2 - length d) (CHR ''0'') @ d)"

text \<open>
  \<^verbatim>\<open>snprintf(buf, n, ...)\<close>: at most \<open>n - 1\<close> characters of the formatted text,
  then a NUL; the rest of the buffer keeps its old content.
\<close>

definition snprintf :: "char list \<Rightarrow> nat \<Rightarrow> char list \<Rightarrow> char list" where
  "snprintf buf n txt =
     (if n = 0 then buf
      else let out = take (n - 1) txt
           in out @ [NUL] @ drop (length out + 1) buf)"

definition url_text :: "float_fmt \<Rightarrow> u8 list \<Rightarrow> char list" where
  "url_text ff buf =
     URL_BASE @ ''?v='' @ ff 2 (unat (get_u16 buf IDX_VOLTAGE)) 100
       @ ''&c='' @ ff 3 (unat (get_u16 buf IDX_CURRENT)) 1000
       @ ''&pf='' @ ff 2 (unat (buf ! IDX_POWER_FACTOR)) 100
       @ ''&l='' @ ff 5 (unat (get_u24 buf IDX_LOAD_KW)) 100000
       @ ''&k='' @ ff 2 (unat (get_u24 buf IDX_KWH_TOTAL)) 100
       @ ''&f='' @ ff 1 (unat (get_u16 buf IDX_FREQUENCY)) 10
       @ ''&d='' @ fmt_02u (buf ! IDX_DATE) @ ''-'' @ fmt_02u (buf ! IDX_MONTH)
       @ ''-'' @ fmt_02u (buf ! IDX_YEAR) @ ''%20'' @ fmt_02u (buf ! IDX_HOUR)
       @ '':'' @ fmt_02u (buf ! IDX_MINUTE) @ '':'' @ fmt_02u (buf ! IDX_SECOND)
       @ ''&s=atmega328pb''"

definition build_http_url :: "float_fmt \<Rightarrow> state \<Rightarrow> state" where
  "build_http_url ff s =
     s\<lparr>httpUrl := snprintf (httpUrl s) URL_BUF_LEN (url_text ff (meterBuf s))\<rparr>"

definition http_fsm :: "float_fmt \<Rightarrow> state \<Rightarrow> state" where
  "http_fsm ff s =
     (if \<not> gprsReady s \<or> \<not> frameReady s then s
      else
        let now = millis s in
        case httpState s of
          HTTP_IDLE \<Rightarrow>
            (uart1_send_str (''AT+HTTPTERM'' @ crlf) (build_http_url ff s))
              \<lparr>httpTimer := now, httpState := HTTP_TERM\<rparr>
        | HTTP_TERM \<Rightarrow>
            if now - httpTimer s \<ge> HTTP_DELAY_MS then
              (uart1_send_str (''AT+HTTPINIT'' @ crlf) s)
                \<lparr>httpTimer := now, httpState := HTTP_INIT\<rparr>
            else s
        | HTTP_INIT \<Rightarrow>
            if now - httpTimer s \<ge> HTTP_DELAY_MS then
              (uart1_send_str (''AT+HTTPPARA='' @ dquote @ ''CID'' @ dquote @ '',1'' @ crlf) s)
                \<lparr>httpTimer := now, httpState := HTTP_CID\<rparr>
            else s
        | HTTP_CID \<Rightarrow>
            if now - httpTimer s \<ge> HTTP_DELAY_MS then
              (uart1_send_str (dquote @ crlf)
                 (uart1_send_str (httpUrl s)
                    (uart1_send_str
                       (''AT+HTTPPARA='' @ dquote @ ''URL'' @ dquote @ '','' @ dquote) s)))
                \<lparr>httpTimer := now, httpState := HTTP_URL\<rparr>
            else s
        | HTTP_URL \<Rightarrow>
            if now - httpTimer s \<ge> HTTP_DELAY_MS then
              (uart1_send_str (''AT+HTTPACTION=0'' @ crlf) s)
                \<lparr>httpTimer := now, httpState := HTTP_ACTION\<rparr>
            else s
        | HTTP_ACTION \<Rightarrow>
            if now - httpTimer s \<ge> HTTP_DELAY_MS * 2 then
              s\<lparr>frameReady := False, httpState := HTTP_COMPLETE\<rparr>
            else s
        | HTTP_COMPLETE \<Rightarrow>
            if now - httpTimer s \<ge> HTTP_DELAY_MS then
              s\<lparr>httpState := HTTP_IDLE\<rparr>
            else s)"

subsection \<open>Main loop\<close>

text \<open>
  The periodic block at the head of the loop. \<^verbatim>\<open>tick10ms - meterKickTimer\<close> is a
  32-bit subtraction (the 16-bit timer is converted up), cast back to 16 bits.
\<close>

definition main_poll :: "state \<Rightarrow> state" where
  "main_poll s =
     (if (ucast (tick10ms s - ucast (meterKickTimer s)) :: u16) \<ge> 100 then
        uart0_send 0xDD (uart0_send 0x91 (uart0_send 0xCC
          (s\<lparr>meterKickTimer := ucast (tick10ms s),
             portb := portb s XOR 2,
             meterIdx := 0\<rparr>)))
      else s)"

definition main_iteration :: "float_fmt \<Rightarrow> state \<Rightarrow> state" where
  "main_iteration ff s = http_fsm ff (gprs_fsm (main_poll s))"

subsection \<open>Interleaving of interrupts and main-loop steps\<close>

text \<open>
  Interrupt handlers run to completion, and the main loop's stores to \<open>meterIdx\<close> and
  to the flags are single bytes, so an execution is a sequence of these events from
  \<open>init_state\<close>.
\<close>

datatype event = EvTimer0 | EvRx u8 | EvPoll | EvGprs | EvHttp

fun step :: "float_fmt \<Rightarrow> event \<Rightarrow> state \<Rightarrow> fault + state" where
  "step ff EvTimer0 s = Inr (TIMER0_OVF_vect s)"
| "step ff (EvRx b) s = USART0_RX_vect b s"
| "step ff EvPoll s = Inr (main_poll s)"
| "step ff EvGprs s = Inr (gprs_fsm s)"
| "step ff EvHttp s = Inr (http_fsm ff s)"

fun run :: "float_fmt \<Rightarrow> event list \<Rightarrow> state \<Rightarrow> fault + state" where
  "run ff [] s = Inr s"
| "run ff (e # es) s = (case step ff e s of Inl f \<Rightarrow> Inl f | Inr s' \<Rightarrow> run ff es s')"

subsection \<open>Executions and what is observed of them\<close>

text \<open>Bytes handed one at a time to the receive handler.\<close>

fun feed :: "u8 list \<Rightarrow> state \<Rightarrow> fault + state" where
  "feed [] s = Inr s"
| "feed (b # bs) s = (case USART0_RX_vect b s of Inl f \<Rightarrow> Inl f | Inr s' \<Rightarrow> feed bs s')"

text \<open>The cursor indexes the buffer it belongs to.\<close>

definition cursor_ok :: "state \<Rightarrow> bool" where
  "cursor_ok s = (unat (meterIdx s) < 44 \<and> length (meterBuf s) = 44)"

text \<open>\<open>n\<close> timer overflows in a row; an event repeated, each time after a wait in ticks.\<close>

definition ticked :: "nat \<Rightarrow> state \<Rightarrow> state" where
  "ticked n s = (TIMER0_OVF_vect ^^ n) s"

fun paced :: "event \<Rightarrow> nat list \<Rightarrow> event list" where
  "paced e [] = []"
| "paced e (n # ns) = replicate n EvTimer0 @ e # paced e ns"

text \<open>The declaration order of \<^verbatim>\<open>gprs_state_t\<close>, and the bring-up states seen along a run.\<close>

fun gprs_rank :: "gprs_state_t \<Rightarrow> nat" where
  "gprs_rank GPRS_IDLE = 0"
| "gprs_rank GPRS_AT = 1"
| "gprs_rank GPRS_ATE0 = 2"
| "gprs_rank GPRS_CPIN = 3"
| "gprs_rank GPRS_CREG = 4"
| "gprs_rank GPRS_CSQ = 5"
| "gprs_rank GPRS_APN = 6"
| "gprs_rank GPRS_ATTACH = 7"
| "gprs_rank GPRS_NETOPEN = 8"
| "gprs_rank GPRS_READY = 9"

definition gprs_order :: "gprs_state_t list" where
  "gprs_order = [GPRS_IDLE, GPRS_AT, GPRS_ATE0, GPRS_CPIN, GPRS_CREG, GPRS_CSQ, GPRS_APN,
                 GPRS_ATTACH, GPRS_NETOPEN, GPRS_READY]"

fun gprs_states :: "float_fmt \<Rightarrow> event list \<Rightarrow> state \<Rightarrow> gprs_state_t list" where
  "gprs_states ff [] s = [gprsState s]"
| "gprs_states ff (e # es) s =
     gprsState s # (case step ff e s of Inl f \<Rightarrow> [] | Inr s' \<Rightarrow> gprs_states ff es s')"

text \<open>Between two commands of the bring-up: the timer holds the time of the last one.\<close>

definition gprs_waiting :: "state \<Rightarrow> bool" where
  "gprs_waiting s =
     (if gprsState s = GPRS_READY then gprsReady s
      else \<not> gprsReady s \<and> gprsState s \<noteq> GPRS_IDLE \<and> gprsTimer s = millisCnt s)"

text \<open>The declaration order of \<^verbatim>\<open>http_state_t\<close>; an upload in progress, just after a command.\<close>

fun http_rank :: "http_state_t \<Rightarrow> nat" where
  "http_rank HTTP_IDLE = 0"
| "http_rank HTTP_TERM = 1"
| "http_rank HTTP_INIT = 2"
| "http_rank HTTP_CID = 3"
| "http_rank HTTP_URL = 4"
| "http_rank HTTP_ACTION = 5"
| "http_rank HTTP_COMPLETE = 6"

definition http_sending :: "state \<Rightarrow> bool" where
  "http_sending s = (gprsReady s \<and> frameReady s \<and> httpTimer s = millisCnt s)"

text \<open>
  Concrete inputs for the instances below. \<open>scenario_frame\<close> is a frame with voltage
  230.00, current 5.000, power factor 0.98, load 1.23456, energy 456.78, date
  01-01-24 12:00:00, frequency 50.0 and the end marker.
\<close>

definition scenario_frame :: "u8 list" where
  "scenario_frame =
     [0x59, 0xD8, 0x13, 0x88, 0x62, 0x01, 0xE2, 0x40, 0, 0, 0, 0x00, 0xB2, 0x6E]
       @ replicate 15 0 @ [1, 1, 24, 12, 0, 0, 0x01, 0xF4] @ replicate 6 0 @ [0xDD]"

text \<open>A conversion that returns 300 characters whatever it is given.\<close>

definition flood :: float_fmt where
  "flood p n d = replicate 300 (CHR ''9'')"

text \<open>
  A first run of the device: bring-up with a service call every 2 s, one frame from the
  meter, one upload with a service call every 1.5 s (3 s before the last).
\<close>

definition bring_up_events :: "event list" where
  "bring_up_events = EvGprs # paced EvGprs (replicate 8 200)"

definition upload_events :: "event list" where
  "upload_events = EvHttp # paced EvHttp [150, 150, 150, 150, 300]"

definition first_upload_events :: "event list" where
  "first_upload_events = bring_up_events @ map EvRx scenario_frame @ upload_events"

text \<open>Sample states: the modem brought up; a frame waiting; a timestamp 1 s before rollover.\<close>

definition modem_up :: state where
  "modem_up = init_state\<lparr>gprsState := GPRS_READY, gprsReady := True\<rparr>"

definition frame_waiting :: state where
  "frame_waiting = modem_up\<lparr>meterBuf := scenario_frame, frameReady := True\<rparr>"

definition before_rollover :: u32 where
  "before_rollover = 0xFFFFFC18"

section \<open>Basic facts\<close>

lemma uart1_send_str_eq:
  "uart1_send_str cs s = s\<lparr>uart1_tx := uart1_tx s @ takeWhile (\<lambda>c. c \<noteq> NUL) cs\<rparr>"
  by (induction cs arbitrary: s) (simp_all add: uart1_send_byte_def)

subsection \<open>The receive handler, one byte at a time\<close>

lemma rx_not_last:
  assumes "unat (meterIdx s) < 43" "length (meterBuf s) = 44"
  shows "USART0_RX_vect b s =
           Inr (s\<lparr>meterBuf := (meterBuf s)[unat (meterIdx s) := b], meterIdx := meterIdx s + 1\<rparr>)"
proof -
  have "meterIdx s + 1 \<noteq> 44"
  proof
    assume "meterIdx s + 1 = 44"
    then have "unat (meterIdx s + 1) = 44" by simp
    moreover have "unat (meterIdx s + 1) = unat (meterIdx s) + 1"
      using assms(1) by (simp add: unat_word_ariths)
    ultimately show False using assms(1) by simp
  qed
  then show ?thesis using assms by (simp add: USART0_RX_vect_def Let_def)
qed

lemma rx_last:
  assumes "unat (meterIdx s) = 43" "length (meterBuf s) = 44"
  shows "USART0_RX_vect b s = Inr (s\<lparr>meterBuf := (meterBuf s)[43 := b],
            frameReady := (frameReady s \<or> b = 0xDD), meterIdx := 0\<rparr>)"
proof -
  have "meterIdx s = 43" using assms(1) by (simp add: word_unat_eq_iff)
  then show ?thesis using assms by (simp add: USART0_RX_vect_def Let_def IDX_FRAME_END_def)
qed

lemma rx_cursor_ok:
  assumes "cursor_ok s"
  shows "\<exists>s'. USART0_RX_vect b s = Inr s' \<and> cursor_ok s'"
proof (cases "unat (meterIdx s) = 43")
  case True
  then show ?thesis using assms rx_last [of s b] by (simp add: cursor_ok_def)
next
  case False
  then have lt: "unat (meterIdx s) < 43" using assms by (simp add: cursor_ok_def)
  then have "unat (meterIdx s + 1) = unat (meterIdx s) + 1" by (simp add: unat_word_ariths)
  then show ?thesis using assms lt rx_not_last [of s b] by (simp add: cursor_ok_def)
qed

lemma rx_frame:
  "USART0_RX_vect b s = Inr s' \<Longrightarrow>
     gprsState s' = gprsState s \<and> gprsTimer s' = gprsTimer s \<and> gprsReady s' = gprsReady s
     \<and> httpState s' = httpState s \<and> httpTimer s' = httpTimer s \<and> httpUrl s' = httpUrl s
     \<and> millisCnt s' = millisCnt s \<and> uart1_tx s' = uart1_tx s"
  by (auto simp: USART0_RX_vect_def Let_def split: if_splits)

lemma feed_append:
  "feed (xs @ ys) s = (case feed xs s of Inl f \<Rightarrow> Inl f | Inr s' \<Rightarrow> feed ys s')"
  by (induction xs arbitrary: s) (simp_all split: sum.splits)

lemma feed_partial:
  "unat (meterIdx s) = i \<Longrightarrow> length (meterBuf s) = 44 \<Longrightarrow> i + length bs < 44 \<Longrightarrow>
   feed bs s = Inr (s\<lparr>meterBuf := take i (meterBuf s) @ bs @ drop (i + length bs) (meterBuf s),
                       meterIdx := of_nat (i + length bs)\<rparr>)"
proof (induction bs arbitrary: s i)
  case Nil
  have "(of_nat i :: u8) = meterIdx s" using Nil.prems(1) [symmetric] by simp
  then show ?case by simp
next
  case (Cons b bs)
  let ?s1 = "s\<lparr>meterBuf := (meterBuf s)[i := b], meterIdx := meterIdx s + 1\<rparr>"
  have lt: "unat (meterIdx s) < 43" using Cons.prems by simp
  have step: "USART0_RX_vect b s = Inr ?s1"
    using rx_not_last [OF lt Cons.prems(2)] Cons.prems(1) by simp
  have idx: "unat (meterIdx ?s1) = Suc i"
    using lt Cons.prems(1) by (simp add: unat_word_ariths)
  have len: "length (meterBuf ?s1) = 44" using Cons.prems(2) by simp
  have "feed bs ?s1 = Inr (?s1\<lparr>meterBuf := take (Suc i) (meterBuf ?s1) @ bs
            @ drop (Suc i + length bs) (meterBuf ?s1),
          meterIdx := of_nat (Suc i + length bs)\<rparr>)"
    using Cons.IH [OF idx len] Cons.prems(3) by simp
  moreover have "take (Suc i) ((meterBuf s)[i := b]) = take i (meterBuf s) @ [b]"
    using Cons.prems by (simp add: take_Suc_conv_app_nth)
  ultimately show ?case using step by simp
qed

lemma feed_frame:
  assumes "meterIdx s = 0" "length (meterBuf s) = 44" "length bs = 44"
  shows "feed bs s = Inr (s\<lparr>meterBuf := bs,
            frameReady := (frameReady s \<or> bs ! 43 = 0xDD), meterIdx := 0\<rparr>)"
proof -
  let ?xs = "butlast bs"
  have bs: "bs = ?xs @ [last bs]" using assms(3) by (cases bs rule: rev_cases) auto
  have lx: "length ?xs = 43" using assms(3) by simp
  let ?s1 = "s\<lparr>meterBuf := ?xs @ drop 43 (meterBuf s), meterIdx := 43\<rparr>"
  have "feed ?xs s = Inr ?s1"
    using feed_partial [of s 0 ?xs] assms lx by simp
  moreover have "USART0_RX_vect (last bs) ?s1 =
      Inr (?s1\<lparr>meterBuf := (meterBuf ?s1)[43 := last bs],
            frameReady := (frameReady ?s1 \<or> last bs = 0xDD), meterIdx := 0\<rparr>)"
    using assms(2) lx by (intro rx_last) simp_all
  moreover have "(?xs @ drop 43 (meterBuf s))[43 := last bs] = bs"
  proof -
    have "length (drop 43 (meterBuf s)) = 1" using assms(2) by simp
    then obtain y where "drop 43 (meterBuf s) = [y]"
      by (cases "drop 43 (meterBuf s)") auto
    then show ?thesis using lx bs by (simp add: list_update_append)
  qed
  moreover have "bs ! 43 = last bs" using bs lx by (metis nth_append_length)
  moreover have "feed bs s = (case feed ?xs s of Inl f \<Rightarrow> Inl f | Inr s' \<Rightarrow> feed [last bs] s')"
    using feed_append [of ?xs "[last bs]" s] bs by simp
  ultimately show ?thesis by simp
qed

subsection \<open>Runs, timer ticks and elapsed time\<close>

lemma run_append:
  "run ff (xs @ ys) s = (case run ff xs s of Inl f \<Rightarrow> Inl f | Inr s' \<Rightarrow> run ff ys s')"
  by (induction xs arbitrary: s) (simp_all split: sum.splits)

lemma run_feed: "run ff (map EvRx bs) s = feed bs s"
  by (induction bs arbitrary: s) (simp_all split: sum.splits)

lemma ticked_eq:
  "ticked n s = s\<lparr>tick10ms := tick10ms s + of_nat n, millisCnt := millisCnt s + 10 * of_nat n\<rparr>"
  unfolding ticked_def
proof (induction n)
  case 0
  show ?case by simp
next
  case (Suc n)
  then show ?case by (simp add: TIMER0_OVF_vect_def algebra_simps)
qed

lemma run_ticks: "run ff (replicate n EvTimer0) s = Inr (ticked n s)"
proof (induction n arbitrary: s)
  case 0
  show ?case by (simp add: ticked_def)
next
  case (Suc n)
  have "ticked (Suc n) s = ticked n (TIMER0_OVF_vect s)"
    by (simp add: ticked_def funpow_swap1)
  then show ?case using Suc by simp
qed

lemma run_paced_Cons:
  "run ff (paced e (n # ns)) s =
     (case step ff e (ticked n s) of Inl f \<Rightarrow> Inl f | Inr s' \<Rightarrow> run ff (paced e ns) s')"
  by (simp add: run_append run_ticks)

lemma elapsed_ticks:
  assumes "n \<le> 429496729"
  shows "unat (10 * of_nat n :: u32) = 10 * n"
  using assms by (intro of_nat_inverse) simp_all

lemma gate_ticks:
  assumes "n \<le> 429496729"
  shows "(thr \<le> (10 * of_nat n :: u32)) = (unat thr \<le> 10 * n)"
  using elapsed_ticks [OF assms] by (simp add: word_le_nat_alt)

lemma elapsed32:
  assumes "d < 2 ^ 32"
  shows "unat ((t0 + of_nat d) - t0 :: u32) = d"
  using assms by (intro of_nat_inverse) simp_all

lemma gate32:
  assumes "d < 2 ^ 32"
  shows "(thr \<le> (t0 + of_nat d) - (t0 :: u32)) = (unat thr \<le> d)"
  using elapsed32 [OF assms, of t0] by (simp add: word_le_nat_alt)

subsection \<open>Narrowing a 32-bit difference to 16 bits\<close>

lemma take_bit16_mod32: "take_bit 16 ((x::int) mod 4294967296) = take_bit 16 x"
proof -
  have "take_bit 16 (take_bit 32 x) = take_bit 16 x" by simp
  moreover have "take_bit 32 x = x mod 2 ^ 32" by (rule take_bit_eq_mod)
  moreover have "(2::int) ^ 32 = 4294967296" by simp
  ultimately show ?thesis by (simp only:)
qed

lemma ucast_down_diff: "(ucast (a - b :: u32) :: u16) = ucast a - ucast b"
proof -
  have "(ucast (a - b) :: u16) = word_of_int (uint (a - b))" by (simp only: ucast_eq)
  also have "\<dots> = word_of_int ((uint a - uint b) mod 2 ^ 32)"
    by (simp add: uint_word_ariths)
  also have "\<dots> = (word_of_int (uint a - uint b) :: u16)"
    by (rule word_of_int_eq_iff [THEN iffD2]) (simp add: take_bit16_mod32)
  also have "\<dots> = ucast a - ucast b"
    by (simp only: ucast_eq wi_homs)
  finally show ?thesis .
qed

lemma ucast_down_add: "(ucast (a + b :: u32) :: u16) = ucast a + ucast b"
proof -
  have "(ucast (a + b) :: u16) = word_of_int (uint (a + b))" by (simp only: ucast_eq)
  also have "\<dots> = word_of_int ((uint a + uint b) mod 2 ^ 32)"
    by (simp add: uint_word_ariths)
  also have "\<dots> = (word_of_int (uint a + uint b) :: u16)"
    by (rule word_of_int_eq_iff [THEN iffD2]) (simp add: take_bit16_mod32)
  also have "\<dots> = ucast a + ucast b"
    by (simp only: ucast_eq wi_homs)
  finally show ?thesis .
qed

lemma ucast_up_down: "(ucast (ucast (y :: u16) :: u32) :: u16) = y"
  by (simp add: ucast_up_ucast_id is_up)

lemma ucast_down_of_nat: "(ucast (of_nat d :: u32) :: u16) = of_nat d"
  by (simp add: unsigned_of_nat word_of_nat_eq_iff)

lemma gate16:
  assumes "d < 2 ^ 16"
  shows "((100::u16) \<le> ucast ((t0 + of_nat d) - ucast (ucast (t0::u32) :: u16))) = (100 \<le> d)"
proof -
  have "(ucast ((t0 + of_nat d) - ucast (ucast t0 :: u16)) :: u16) = of_nat d"
    by (simp add: ucast_down_diff ucast_down_add ucast_down_of_nat ucast_up_down)
  moreover have "unat (of_nat d :: u16) = d" using assms by (intro of_nat_inverse) simp_all
  ultimately show ?thesis by (simp add: word_le_nat_alt)
qed

subsection \<open>What each step leaves alone\<close>

lemma gprs_fsm_cursor:
  "meterIdx (gprs_fsm s) = meterIdx s \<and> meterBuf (gprs_fsm s) = meterBuf s"
  by (cases "gprsState s") (simp_all add: gprs_fsm_def Let_def uart1_send_str_eq)

lemma http_fsm_cursor:
  "meterIdx (http_fsm ff s) = meterIdx s \<and> meterBuf (http_fsm ff s) = meterBuf s"
  by (cases "httpState s")
     (simp_all add: http_fsm_def Let_def uart1_send_str_eq build_http_url_def)

lemma http_fsm_gprs_fields:
  "gprsState (http_fsm ff s) = gprsState s \<and> gprsTimer (http_fsm ff s) = gprsTimer s
   \<and> gprsReady (http_fsm ff s) = gprsReady s"
  by (cases "httpState s")
     (simp_all add: http_fsm_def Let_def uart1_send_str_eq build_http_url_def)

lemma main_poll_fires:
  "uart0_tx (uart0_send 0xDD (uart0_send 0x91 (uart0_send 0xCC
      (s\<lparr>meterKickTimer := k, portb := q, meterIdx := 0\<rparr>)))) = uart0_tx s @ [0xCC, 0x91, 0xDD]"
  by (simp add: uart0_send_def)

lemma step_cursor_ok:
  assumes "cursor_ok s"
  shows "\<exists>s'. step ff e s = Inr s' \<and> cursor_ok s'"
proof (cases e)
  case (EvRx b)
  then show ?thesis using assms rx_cursor_ok [of s b] by simp
qed (use assms in \<open>simp_all add: cursor_ok_def TIMER0_OVF_vect_def main_poll_def
       uart0_send_def gprs_fsm_cursor http_fsm_cursor\<close>)

lemma run_cursor_ok: "cursor_ok s \<Longrightarrow> \<exists>s'. run ff evs s = Inr s' \<and> cursor_ok s'"
proof (induction evs arbitrary: s)
  case Nil
  then show ?case by simp
next
  case (Cons e es)
  obtain s1 where "step ff e s = Inr s1" "cursor_ok s1"
    using step_cursor_ok [OF Cons.prems] by blast
  then show ?case using Cons.IH [of s1] by simp
qed

subsection \<open>The bring-up sequencer moves forward, one state at a time\<close>

lemma gprs_fsm_rank:
  "gprs_rank (gprsState (gprs_fsm s)) = gprs_rank (gprsState s) \<or>
   gprs_rank (gprsState (gprs_fsm s)) = Suc (gprs_rank (gprsState s))"
  by (cases "gprsState s") (simp_all add: gprs_fsm_def Let_def)

lemma step_rank:
  assumes "step ff e s = Inr s'"
  shows "gprs_rank (gprsState s') = gprs_rank (gprsState s) \<or>
         gprs_rank (gprsState s') = Suc (gprs_rank (gprsState s))"
proof (cases e)
  case EvGprs
  then show ?thesis using assms gprs_fsm_rank [of s] by auto
next
  case (EvRx b)
  then show ?thesis using assms rx_frame [of b s s'] by simp
next
  case EvHttp
  then show ?thesis using assms http_fsm_gprs_fields [of ff s] by auto
qed (use assms in \<open>auto simp: TIMER0_OVF_vect_def main_poll_def uart0_send_def\<close>)

lemma drop_rank: "drop (gprs_rank x) gprs_order = x # drop (Suc (gprs_rank x)) gprs_order"
  by (cases x) (simp_all add: gprs_order_def)

lemma gprs_states_Cons: "\<exists>ys. gprs_states ff evs s = gprsState s # ys"
  by (cases evs) simp_all

lemma gprs_states_prefix:
  "prefix (remdups_adj (gprs_states ff evs s)) (drop (gprs_rank (gprsState s)) gprs_order)"
proof (induction evs arbitrary: s)
  case Nil
  show ?case by (simp add: drop_rank)
next
  case (Cons e es)
  show ?case
  proof (cases "step ff e s")
    case (Inl f)
    then show ?thesis by (simp add: drop_rank)
  next
    case (Inr s')
    obtain ys where ys: "gprs_states ff es s' = gprsState s' # ys"
      using gprs_states_Cons by blast
    have ih: "prefix (remdups_adj (gprsState s' # ys))
                (drop (gprs_rank (gprsState s')) gprs_order)"
      using Cons.IH [of s'] ys by simp
    from step_rank [OF Inr] show ?thesis
    proof
      assume "gprs_rank (gprsState s') = gprs_rank (gprsState s)"
      then have "gprsState s' = gprsState s"
        by (cases "gprsState s'"; cases "gprsState s") simp_all
      then show ?thesis using Inr ys ih by simp
    next
      assume r: "gprs_rank (gprsState s') = Suc (gprs_rank (gprsState s))"
      then have "gprsState s' \<noteq> gprsState s" by auto
      then show ?thesis using Inr ys ih r by (simp add: drop_rank [of "gprsState s"])
    qed
  qed
qed

lemma last_gprs_states:
  "run ff evs s = Inr s' \<Longrightarrow> last (gprs_states ff evs s) = gprsState s'"
proof (induction evs arbitrary: s)
  case Nil
  then show ?case by simp
next
  case (Cons e es)
  then show ?case
  proof (cases "step ff e s")
    case (Inl f)
    then show ?thesis using Cons.prems by simp
  next
    case (Inr s1)
    have "run ff es s1 = Inr s'" using Cons.prems Inr by simp
    then have "last (gprs_states ff es s1) = gprsState s'" by (rule Cons.IH)
    moreover obtain ys where "gprs_states ff es s1 = gprsState s1 # ys"
      using gprs_states_Cons by blast
    ultimately show ?thesis using Inr by simp
  qed
qed

lemma prefix_order_full:
  assumes "prefix xs gprs_order" "xs \<noteq> []" "last xs = GPRS_READY"
  shows "xs = gprs_order"
proof -
  obtain zs where zs: "gprs_order = xs @ zs" using assms(1) by (auto simp: prefix_def)
  have d: "distinct gprs_order" by (simp add: gprs_order_def)
  have "GPRS_READY \<in> set xs" using assms(2,3) last_in_set by metis
  moreover have "zs \<noteq> [] \<Longrightarrow> GPRS_READY \<in> set zs"
  proof -
    assume nz: "zs \<noteq> []"
    have "last gprs_order = GPRS_READY" by (simp add: gprs_order_def)
    then have "last zs = GPRS_READY" using zs nz by (metis last_appendR)
    then show ?thesis using nz last_in_set by metis
  qed
  moreover have "set xs \<inter> set zs = {}" using d unfolding zs by simp
  ultimately have "zs = []" by blast
  then show ?thesis using zs by simp
qed

lemma gprs_phase:
  assumes "gprs_waiting s" "gprsState s \<noteq> GPRS_READY" "200 \<le> n" "n \<le> 429496729"
  shows "gprs_waiting (gprs_fsm (ticked n s)) \<and>
         gprs_rank (gprsState (gprs_fsm (ticked n s))) = Suc (gprs_rank (gprsState s))"
proof -
  have g: "(2000::u32) \<le> 10 * of_nat n" using assms(3,4) by (simp add: gate_ticks)
  show ?thesis using assms(1,2) g
    by (cases "gprsState s")
       (simp_all add: gprs_waiting_def gprs_fsm_def ticked_eq millis_def Let_def
          COMMAND_DELAY_MS_def uart1_send_str_eq)
qed

lemma gprs_fsm_other_fields:
  "frameReady (gprs_fsm s) = frameReady s \<and> httpState (gprs_fsm s) = httpState s
   \<and> httpTimer (gprs_fsm s) = httpTimer s \<and> millisCnt (gprs_fsm s) = millisCnt s"
  by (cases "gprsState s") (simp_all add: gprs_fsm_def Let_def uart1_send_str_eq)

lemma gprs_bring_up:
  "gprs_waiting s \<Longrightarrow> length ns = 9 - gprs_rank (gprsState s) \<Longrightarrow>
   \<forall>n\<in>set ns. 200 \<le> n \<and> n \<le> 429496729 \<Longrightarrow>
   \<exists>s'. run ff (paced EvGprs ns) s = Inr s' \<and> gprsState s' = GPRS_READY \<and> gprsReady s'
     \<and> meterIdx s' = meterIdx s \<and> meterBuf s' = meterBuf s
     \<and> frameReady s' = frameReady s \<and> httpState s' = httpState s"
proof (induction ns arbitrary: s)
  case Nil
  then have "gprs_rank (gprsState s) \<ge> 9" by simp
  then have "gprsState s = GPRS_READY" by (cases "gprsState s") simp_all
  then show ?case using Nil.prems(1) by (simp add: gprs_waiting_def)
next
  case (Cons n ns)
  let ?s1 = "gprs_fsm (ticked n s)"
  have nr: "gprsState s \<noteq> GPRS_READY" using Cons.prems(2) by auto
  have ph: "gprs_waiting ?s1 \<and> gprs_rank (gprsState ?s1) = Suc (gprs_rank (gprsState s))"
    using gprs_phase [OF Cons.prems(1) nr] Cons.prems(3) by simp
  then have "length ns = 9 - gprs_rank (gprsState ?s1)" using Cons.prems(2) by simp
  then obtain s' where s': "run ff (paced EvGprs ns) ?s1 = Inr s'" "gprsState s' = GPRS_READY"
      "gprsReady s'" "meterIdx s' = meterIdx ?s1" "meterBuf s' = meterBuf ?s1"
      "frameReady s' = frameReady ?s1" "httpState s' = httpState ?s1"
    using Cons.IH [of ?s1] ph Cons.prems(3) by auto
  have "meterIdx ?s1 = meterIdx s \<and> meterBuf ?s1 = meterBuf s
        \<and> frameReady ?s1 = frameReady s \<and> httpState ?s1 = httpState s"
    by (simp add: gprs_fsm_cursor gprs_fsm_other_fields ticked_eq)
  then show ?case using s' by (simp add: run_paced_Cons del: paced.simps)
qed

lemma gprs_full_order:
  assumes "length ns = 8" "\<forall>n\<in>set ns. 200 \<le> n \<and> n \<le> 429496729"
  shows "remdups_adj (gprs_states ff (EvGprs # paced EvGprs ns) init_state) = gprs_order"
proof -
  let ?s1 = "gprs_fsm init_state"
  have w: "gprs_waiting ?s1" and r: "gprsState ?s1 = GPRS_AT"
    by (simp_all add: gprs_waiting_def gprs_fsm_def init_state_def Let_def millis_def
          uart1_send_str_eq)
  obtain s' where s': "run ff (paced EvGprs ns) ?s1 = Inr s'" "gprsState s' = GPRS_READY"
    using gprs_bring_up [OF w, of ns ff] assms r by auto
  then have "run ff (EvGprs # paced EvGprs ns) init_state = Inr s'" by simp
  then have "last (gprs_states ff (EvGprs # paced EvGprs ns) init_state) = GPRS_READY"
    using last_gprs_states s'(2) by metis
  moreover have "prefix (remdups_adj (gprs_states ff (EvGprs # paced EvGprs ns) init_state))
                   gprs_order"
    using gprs_states_prefix [of ff "EvGprs # paced EvGprs ns" init_state]
    by (simp add: init_state_def del: gprs_states.simps)
  ultimately show ?thesis
    by (intro prefix_order_full) (simp_all del: gprs_states.simps, simp)
qed

subsection \<open>One upload cycle, step by step\<close>

lemma http_rank_inj: "http_rank x = http_rank y \<Longrightarrow> x = y"
  by (cases x; cases y) simp_all

lemma http_start:
  assumes "gprsReady s" "frameReady s" "httpState s = HTTP_IDLE"
  shows "http_sending (http_fsm ff s) \<and> httpState (http_fsm ff s) = HTTP_TERM"
  using assms
  by (simp add: http_sending_def http_fsm_def Let_def millis_def uart1_send_str_eq
        build_http_url_def)

lemma http_phase:
  assumes "http_sending s" "httpState s \<in> {HTTP_TERM, HTTP_INIT, HTTP_CID, HTTP_URL}"
    "150 \<le> n" "n \<le> 429496729"
  shows "http_sending (http_fsm ff (ticked n s)) \<and>
         http_rank (httpState (http_fsm ff (ticked n s))) = Suc (http_rank (httpState s))"
proof -
  have g: "(1500::u32) \<le> 10 * of_nat n" using assms(3,4) by (simp add: gate_ticks)
  show ?thesis using assms(1,2) g
    by (cases "httpState s")
       (simp_all add: http_sending_def http_fsm_def ticked_eq millis_def Let_def
          HTTP_DELAY_MS_def uart1_send_str_eq)
qed

lemma http_finish:
  assumes "http_sending s" "httpState s = HTTP_ACTION" "300 \<le> n" "n \<le> 429496729"
  shows "http_fsm ff (ticked n s) =
           (ticked n s)\<lparr>frameReady := False, httpState := HTTP_COMPLETE\<rparr>"
proof -
  have g: "(3000::u32) \<le> 10 * of_nat n" using assms(3,4) by (simp add: gate_ticks)
  show ?thesis using assms(1,2) g
    by (simp add: http_sending_def http_fsm_def ticked_eq millis_def Let_def HTTP_DELAY_MS_def)
qed

lemma http_cycle:
  assumes f: "gprsReady s" "frameReady s" "httpState s = HTTP_IDLE"
    and n: "150 \<le> n1" "n1 \<le> 429496729" "150 \<le> n2" "n2 \<le> 429496729"
           "150 \<le> n3" "n3 \<le> 429496729" "150 \<le> n4" "n4 \<le> 429496729"
           "300 \<le> n5" "n5 \<le> 429496729"
  shows "\<exists>s'. run ff (EvHttp # paced EvHttp [n1, n2, n3, n4, n5]) s = Inr s'
           \<and> httpState s' = HTTP_COMPLETE \<and> \<not> frameReady s' \<and> gprsReady s'
           \<and> millisCnt s' = httpTimer s' + 10 * of_nat n5
           \<and> meterIdx s' = meterIdx s \<and> meterBuf s' = meterBuf s"
proof -
  let ?s0 = "http_fsm ff s"
  let ?s1 = "http_fsm ff (ticked n1 ?s0)"
  let ?s2 = "http_fsm ff (ticked n2 ?s1)"
  let ?s3 = "http_fsm ff (ticked n3 ?s2)"
  let ?s4 = "http_fsm ff (ticked n4 ?s3)"
  let ?s5 = "http_fsm ff (ticked n5 ?s4)"
  have p0: "http_sending ?s0" "httpState ?s0 = HTTP_TERM" using http_start [OF f] by simp_all
  have "http_sending ?s1 \<and> http_rank (httpState ?s1) = Suc (http_rank (httpState ?s0))"
    using p0 n by (intro http_phase) simp_all
  then have p1: "http_sending ?s1" "httpState ?s1 = HTTP_INIT"
    using p0(2) http_rank_inj [of "httpState ?s1" HTTP_INIT] by simp_all
  have "http_sending ?s2 \<and> http_rank (httpState ?s2) = Suc (http_rank (httpState ?s1))"
    using p1 n by (intro http_phase) simp_all
  then have p2: "http_sending ?s2" "httpState ?s2 = HTTP_CID"
    using p1(2) http_rank_inj [of "httpState ?s2" HTTP_CID] by simp_all
  have "http_sending ?s3 \<and> http_rank (httpState ?s3) = Suc (http_rank (httpState ?s2))"
    using p2 n by (intro http_phase) simp_all
  then have p3: "http_sending ?s3" "httpState ?s3 = HTTP_URL"
    using p2(2) http_rank_inj [of "httpState ?s3" HTTP_URL] by simp_all
  have "http_sending ?s4 \<and> http_rank (httpState ?s4) = Suc (http_rank (httpState ?s3))"
    using p3 n by (intro http_phase) simp_all
  then have p4: "http_sending ?s4" "httpState ?s4 = HTTP_ACTION"
    using p3(2) http_rank_inj [of "httpState ?s4" HTTP_ACTION] by simp_all
  have p5: "?s5 = (ticked n5 ?s4)\<lparr>frameReady := False, httpState := HTTP_COMPLETE\<rparr>"
    using p4 n by (intro http_finish) simp_all
  have r: "run ff (EvHttp # paced EvHttp [n1, n2, n3, n4, n5]) s = Inr ?s5"
    by (simp add: run_paced_Cons del: paced.simps(2))
  have c: "meterIdx ?s5 = meterIdx s \<and> meterBuf ?s5 = meterBuf s"
    by (simp add: http_fsm_cursor ticked_eq)
  have t: "httpState ?s5 = HTTP_COMPLETE \<and> \<not> frameReady ?s5 \<and> gprsReady ?s5
         \<and> millisCnt ?s5 = httpTimer ?s5 + 10 * of_nat n5"
    unfolding p5 using p4(1) by (simp add: ticked_eq http_sending_def)
  show ?thesis using r c t by blast
qed

lemma http_stalled:
  "httpState s = HTTP_COMPLETE \<Longrightarrow> \<not> frameReady s \<Longrightarrow>
   \<exists>s'. run ff (paced EvHttp ns) s = Inr s' \<and> httpState s' = HTTP_COMPLETE \<and> \<not> frameReady s'"
proof (induction ns arbitrary: s)
  case Nil
  then show ?case by simp
next
  case (Cons n ns)
  let ?s1 = "http_fsm ff (ticked n s)"
  have "?s1 = ticked n s" using Cons.prems by (simp add: http_fsm_def ticked_eq)
  then have "httpState ?s1 = HTTP_COMPLETE" "\<not> frameReady ?s1"
    using Cons.prems by (simp_all add: ticked_eq)
  then obtain s' where "run ff (paced EvHttp ns) ?s1 = Inr s'" "httpState s' = HTTP_COMPLETE"
      "\<not> frameReady s'"
    using Cons.IH [of ?s1] by blast
  then show ?case by (simp add: run_paced_Cons del: paced.simps)
qed

lemma flags_mid_cycle:
  assumes "gprsReady s" "frameReady s" "step ff e s = Inr s'"
  shows "gprsReady s' \<and> (frameReady s' \<or>
           (e = EvHttp \<and> httpState s = HTTP_ACTION \<and> httpState s' = HTTP_COMPLETE))"
proof (cases e)
  case EvTimer0
  then show ?thesis using assms by (auto simp: TIMER0_OVF_vect_def)
next
  case (EvRx b)
  then show ?thesis using assms
    by (auto simp: USART0_RX_vect_def Let_def split: if_splits)
next
  case EvPoll
  then show ?thesis using assms by (auto simp: main_poll_def uart0_send_def)
next
  case EvGprs
  then show ?thesis using assms by (auto simp: gprs_fsm_def)
next
  case EvHttp
  then have "s' = http_fsm ff s" using assms by simp
  then show ?thesis using assms(1,2) EvHttp
    by (cases "httpState s")
       (simp_all add: http_fsm_def Let_def uart1_send_str_eq build_http_url_def)
qed

text \<open>The first run of the device ends in complete, 3 s after the last timestamp.\<close>

lemma first_upload:
  "\<exists>s. run ff first_upload_events init_state = Inr s
       \<and> httpState s = HTTP_COMPLETE \<and> \<not> frameReady s \<and> gprsReady s
       \<and> millisCnt s = httpTimer s + 3000 \<and> meterIdx s = 0 \<and> length (meterBuf s) = 44"
proof -
  let ?a = "gprs_fsm init_state"
  have w: "gprs_waiting ?a" and r: "gprsState ?a = GPRS_AT"
    by (simp_all add: gprs_waiting_def gprs_fsm_def init_state_def Let_def millis_def
          uart1_send_str_eq)
  have a: "meterIdx ?a = 0 \<and> length (meterBuf ?a) = 44 \<and> \<not> frameReady ?a
           \<and> httpState ?a = HTTP_IDLE"
    by (simp add: gprs_fsm_cursor gprs_fsm_other_fields) (simp add: init_state_def)
  obtain s1 where s1: "run ff (paced EvGprs (replicate 8 200)) ?a = Inr s1" "gprsReady s1"
      "meterIdx s1 = 0" "length (meterBuf s1) = 44" "httpState s1 = HTTP_IDLE"
    using gprs_bring_up [OF w, of "replicate 8 200" ff] r a by auto
  have r1: "run ff bring_up_events init_state = Inr s1"
    using s1(1) by (simp add: bring_up_events_def)
  let ?s2 = "s1\<lparr>meterBuf := scenario_frame,
                 frameReady := (frameReady s1 \<or> scenario_frame ! 43 = 0xDD), meterIdx := 0\<rparr>"
  have len: "length scenario_frame = 44" by (simp add: scenario_frame_def)
  have r2: "run ff (map EvRx scenario_frame) s1 = Inr ?s2"
    unfolding run_feed using s1(3,4) len by (rule feed_frame)
  have fr: "frameReady ?s2" by (simp add: scenario_frame_def nth_append)
  obtain s3 where s3: "run ff upload_events ?s2 = Inr s3" "httpState s3 = HTTP_COMPLETE"
      "\<not> frameReady s3" "gprsReady s3" "millisCnt s3 = httpTimer s3 + 10 * of_nat (300::nat)"
      "meterIdx s3 = meterIdx ?s2" "meterBuf s3 = meterBuf ?s2"
    using http_cycle [of ?s2 150 150 150 150 300 ff] s1(2,5) fr
    unfolding upload_events_def by auto
  have "run ff first_upload_events init_state = Inr s3"
    using r1 r2 s3(1) by (simp add: first_upload_events_def run_append)
  moreover have "length (meterBuf s3) = 44" using s3(7) len by simp
  ultimately show ?thesis using s3 by simp
qed

subsection \<open>The length bound of the formatted request\<close>

lemma takeWhile_stops: "length (takeWhile (\<lambda>c. c \<noteq> z) (xs @ z # ys)) \<le> length xs"
  by (induction xs) auto

lemma snprintf_bounded:
  assumes "length buf = Suc m"
  shows "length (snprintf buf (Suc m) txt) = Suc m"
    and "snprintf buf (Suc m) txt ! min (length txt) m = NUL"
    and "take (min (length txt) m) (snprintf buf (Suc m) txt) = take m txt"
    and "length (takeWhile (\<lambda>c. c \<noteq> NUL) (snprintf buf (Suc m) txt)) \<le> m"
proof -
  let ?out = "take m txt"
  have eq: "snprintf buf (Suc m) txt = ?out @ NUL # drop (Suc (length ?out)) buf"
    by (simp add: snprintf_def Let_def)
  have lo: "length ?out = min (length txt) m" by simp
  show "length (snprintf buf (Suc m) txt) = Suc m" using assms by (simp add: eq)
  show "snprintf buf (Suc m) txt ! min (length txt) m = NUL"
    unfolding eq lo [symmetric] by (simp only: nth_append_length)
  show "take (min (length txt) m) (snprintf buf (Suc m) txt) = take m txt"
    unfolding eq by (simp add: min_def)
  have "length (takeWhile (\<lambda>c. c \<noteq> NUL) (?out @ NUL # drop (Suc (length ?out)) buf))
          \<le> length ?out"
    by (rule takeWhile_stops)
  then show "length (takeWhile (\<lambda>c. c \<noteq> NUL) (snprintf buf (Suc m) txt)) \<le> m"
    unfolding eq by simp
qed

subsection \<open>Reading fields high byte first\<close>





subsection \<open>Evaluating the float conversion\<close>

lemma normalise_eq:
  "0 < a \<Longrightarrow> b \<le> a * 2 ^ j \<Longrightarrow> (j = 0 \<or> a * 2 ^ (j - 1) < b) \<Longrightarrow>
   normalise a b k = (a * 2 ^ j, k + j)"
proof (induction j arbitrary: a k)
  case 0
  then show ?case by (simp add: normalise.simps)
next
  case (Suc j)
  have lt: "a < b"
  proof -
    have "a \<le> a * 2 ^ j" by simp
    moreover have "a * 2 ^ j < b" using Suc.prems(3) by simp
    ultimately show ?thesis by linarith
  qed
  have "normalise (2 * a) b (k + 1) = (2 * a * 2 ^ j, k + 1 + j)"
  proof (rule Suc.IH)
    show "0 < 2 * a" using Suc.prems(1) by simp
    show "b \<le> 2 * a * 2 ^ j" using Suc.prems(2) by (simp add: mult.assoc mult.left_commute)
    show "j = 0 \<or> 2 * a * 2 ^ (j - 1) < b"
    proof (cases j)
      case 0
      then show ?thesis by simp
    next
      case (Suc i)
      then show ?thesis using Suc.prems(3) by (simp add: mult.assoc mult.left_commute)
    qed
  qed
  then show ?case using lt Suc.prems(1)
    by (subst normalise.simps) (simp add: mult.assoc mult.left_commute)
qed

lemma float_div_eq:
  assumes "0 < n" "d * 2 ^ 23 \<le> n * 2 ^ j" "j = 0 \<or> n * 2 ^ (j - 1) < d * 2 ^ 23"
  shows "float_div n d = (round_half_even (n * 2 ^ j) d, j)"
  using normalise_eq [OF assms, of 0] by (simp add: float_div_def)

lemma printf_f_value:
  assumes "0 < n" "d * 2 ^ 23 \<le> n * 2 ^ j" "j = 0 \<or> n * 2 ^ (j - 1) < d * 2 ^ 23"
    and "round_half_even (n * 2 ^ j) d = m" "round_half_even (m * 10 ^ p) (2 ^ j) = r"
    and "0 < p" "dec_digits (r div 10 ^ p) = ip" "dec_digits (r mod 10 ^ p) = fp"
    and "ip @ ''.'' @ replicate (p - length fp) (CHR ''0'') @ fp = txt"
  shows "printf_f p n d = txt"
proof -
  have "float_div n d = (m, j)" using float_div_eq [OF assms(1-3)] assms(4) by simp
  then show ?thesis using assms(5-9) by (simp add: printf_f_def Let_def)
qed

lemma replicate_2_3: "replicate 2 c = [c, c]" "replicate 3 c = [c, c, c]"
  by (simp_all add: numeral_2_eq_2 numeral_3_eq_3)


text \<open>The division is binary: 16777215 / 100000 prints as 167.77216, not 167.77215.\<close>

lemma printf_f_rounds_in_binary: "printf_f 5 16777215 100000 = ''167.77216''"
  by (rule printf_f_value [where j = 16 and m = 10995116 and r = 16777216
         and ip = "''167''" and fp = "''77216''"])
     (simp_all add: round_half_even_def Let_def dec_digits.simps digit_char_def)

subsection \<open>Decoding and formatting the scenario frame\<close>

lemma scenario_conversions:
  "printf_f 2 23000 100 = ''230.00''"
  "printf_f 3 5000 1000 = ''5.000''"
  "printf_f 2 98 100 = ''0.98''"
  "printf_f 5 123456 100000 = ''1.23456''"
  "printf_f 2 45678 100 = ''456.78''"
  "printf_f 1 500 10 = ''50.0''"
proof -
  show "printf_f 2 23000 100 = ''230.00''"
    by (rule printf_f_value [where j = 16 and m = 15073280 and r = 23000
           and ip = "''230''" and fp = "''0''"])
       (simp_all add: round_half_even_def Let_def dec_digits.simps digit_char_def)
  show "printf_f 3 5000 1000 = ''5.000''"
    by (rule printf_f_value [where j = 21 and m = 10485760 and r = 5000
           and ip = "''5''" and fp = "''0''"])
       (simp_all add: round_half_even_def Let_def dec_digits.simps digit_char_def
          replicate_2_3)
  show "printf_f 2 98 100 = ''0.98''"
    by (rule printf_f_value [where j = 24 and m = 16441672 and r = 98
           and ip = "''0''" and fp = "''98''"])
       (simp_all add: round_half_even_def Let_def dec_digits.simps digit_char_def)
  show "printf_f 5 123456 100000 = ''1.23456''"
    by (rule printf_f_value [where j = 23 and m = 10356240 and r = 123456
           and ip = "''1''" and fp = "''23456''"])
       (simp_all add: round_half_even_def Let_def dec_digits.simps digit_char_def)
  show "printf_f 2 45678 100 = ''456.78''"
    by (rule printf_f_value [where j = 15 and m = 14967767 and r = 45678
           and ip = "''456''" and fp = "''78''"])
       (simp_all add: round_half_even_def Let_def dec_digits.simps digit_char_def)
  show "printf_f 1 500 10 = ''50.0''"
    by (rule printf_f_value [where j = 18 and m = 13107200 and r = 500
           and ip = "''50''" and fp = "''0''"])
       (simp_all add: round_half_even_def Let_def dec_digits.simps digit_char_def)
qed

lemma scenario_dates:
  "fmt_02u 1 = ''01''" "fmt_02u 24 = ''24''" "fmt_02u 12 = ''12''" "fmt_02u 0 = ''00''"
  by (simp_all add: fmt_02u_def dec_digits.simps digit_char_def Let_def)

lemma scenario_raw:
  "unat (get_u16 scenario_frame IDX_VOLTAGE) = 23000"
  "unat (get_u16 scenario_frame IDX_CURRENT) = 5000"
  "unat (scenario_frame ! IDX_POWER_FACTOR) = 98"
  "unat (get_u24 scenario_frame IDX_LOAD_KW) = 123456"
  "unat (get_u24 scenario_frame IDX_KWH_TOTAL) = 45678"
  "unat (get_u16 scenario_frame IDX_FREQUENCY) = 500"
  by (simp_all add: get_u16_def get_u24_def scenario_frame_def IDX_VOLTAGE_def IDX_CURRENT_def
      IDX_POWER_FACTOR_def IDX_LOAD_KW_def IDX_KWH_TOTAL_def IDX_FREQUENCY_def nth_append)

lemma scenario_date:
  "scenario_frame ! IDX_DATE = 1" "scenario_frame ! IDX_MONTH = 1"
  "scenario_frame ! IDX_YEAR = 24" "scenario_frame ! IDX_HOUR = 12"
  "scenario_frame ! IDX_MINUTE = 0" "scenario_frame ! IDX_SECOND = 0"
  by (simp_all add: scenario_frame_def nth_append IDX_DATE_def IDX_MONTH_def IDX_YEAR_def
        IDX_HOUR_def IDX_MINUTE_def IDX_SECOND_def)

lemma url_text_layout:
  "url_text ff scenario_frame =
     URL_BASE @ ''?v='' @ ff 2 23000 100 @ ''&c='' @ ff 3 5000 1000 @ ''&pf='' @ ff 2 98 100
       @ ''&l='' @ ff 5 123456 100000 @ ''&k='' @ ff 2 45678 100 @ ''&f='' @ ff 1 500 10
       @ ''&d=01-01-24%2012:00:00&s=atmega328pb''"
  unfolding url_text_def scenario_raw scenario_date scenario_dates by simp

lemma url_text_scenario:
  "url_text printf_f scenario_frame =
     ''http://2e40139af09b.ngrok-free.app/meter?v=230.00&c=5.000&pf=0.98&l=1.23456&k=456.78&f=50.0&d=01-01-24%2012:00:00&s=atmega328pb''"
  unfolding url_text_layout scenario_conversions URL_BASE_def by simp

lemma url_text_scenario_length: "length (url_text printf_f scenario_frame) = 127"
  unfolding url_text_scenario by simp

section \<open>Frame capture\<close>

text \<open>
  Claim C2. Bytes are fed one at a time to the receive handler, starting with the cursor
  at zero. For every 44-byte frame \<open>bs\<close>: after the 44th byte the handler has raised
  the frame-ready flag exactly when the byte at offset 43 is \<open>0xDD\<close> (a flag already
  raised stays raised, the handler never lowers it), and the cursor is back at zero
  whatever that byte is. After any shorter prefix of the frame the flag is untouched
  and the cursor counts the bytes stored, so the flag is written once per frame, at
  the 44th byte.
\<close>

theorem frame_ready_iff_sentinel:
  assumes "meterIdx s = 0" "length (meterBuf s) = 44" "length bs = 44"
  shows "feed bs s = Inr (s\<lparr>meterBuf := bs,
            frameReady := (frameReady s \<or> bs ! IDX_FRAME_END = 0xDD), meterIdx := 0\<rparr>)
         \<and> (\<forall>k<44. feed (take k bs) s =
               Inr (s\<lparr>meterBuf := take k bs @ drop k (meterBuf s), meterIdx := of_nat k\<rparr>))"
proof
  show "feed bs s = Inr (s\<lparr>meterBuf := bs,
            frameReady := (frameReady s \<or> bs ! IDX_FRAME_END = 0xDD), meterIdx := 0\<rparr>)"
    using feed_frame [OF assms] by (simp add: IDX_FRAME_END_def)
  show "\<forall>k<44. feed (take k bs) s =
               Inr (s\<lparr>meterBuf := take k bs @ drop k (meterBuf s), meterIdx := of_nat k\<rparr>)"
  proof (intro allI impI)
    fix k :: nat
    assume "k < 44"
    then show "feed (take k bs) s =
               Inr (s\<lparr>meterBuf := take k bs @ drop k (meterBuf s), meterIdx := of_nat k\<rparr>)"
      using feed_partial [of s 0 "take k bs"] assms by simp
  qed
qed

text \<open>
  At the start-up state: the scenario frame (end marker \<open>0xDD\<close>) raises the flag, its
  first ten bytes alone do not, and a frame of 44 bytes \<open>0x55\<close> leaves it down.
\<close>

theorem frame_ready_iff_sentinel_witness:
  "meterIdx init_state = 0 \<and> length (meterBuf init_state) = 44 \<and> length scenario_frame = 44
   \<and> feed scenario_frame init_state =
       Inr (init_state\<lparr>meterBuf := scenario_frame, frameReady := True, meterIdx := 0\<rparr>)
   \<and> feed (take 10 scenario_frame) init_state =
       Inr (init_state\<lparr>meterBuf := take 10 scenario_frame @ replicate 34 0, meterIdx := 10\<rparr>)
   \<and> feed (replicate 44 0x55) init_state =
       Inr (init_state\<lparr>meterBuf := replicate 44 0x55, frameReady := False, meterIdx := 0\<rparr>)"
proof -
  have a: "meterIdx init_state = 0" "length (meterBuf init_state) = 44"
    by (simp_all add: init_state_def)
  have b: "length scenario_frame = 44" by (simp add: scenario_frame_def)
  have c: "length (replicate 44 (0x55::u8)) = 44" by simp
  have d: "scenario_frame ! IDX_FRAME_END = 0xDD"
    by (simp add: scenario_frame_def IDX_FRAME_END_def nth_append)
  have e: "\<not> frameReady init_state" "drop 10 (meterBuf init_state) = replicate 34 0"
    by (simp_all add: init_state_def)
  show ?thesis
    using frame_ready_iff_sentinel [OF a b] frame_ready_iff_sentinel [OF a c] a b d e
    by (simp add: IDX_FRAME_END_def)
qed

text \<open>
  Claim C9. Along every execution from the start-up state, whatever the interleaving of
  timer interrupts, received bytes, poll blocks and sequencer calls, no store of the
  receive handler falls outside the buffer (the run never ends in \<open>BufferOverrun\<close>),
  and the cursor is between 0 and 43 after every step.
\<close>

theorem cursor_stays_in_buffer:
  "\<exists>s'. run ff evs init_state = Inr s' \<and> unat (meterIdx s') < 44 \<and> length (meterBuf s') = 44"
  using run_cursor_ok [of init_state ff evs] by (simp add: cursor_ok_def init_state_def)

section \<open>Modem bring-up sequencer\<close>

text \<open>
  Claim C3. Along every execution from the start-up state the values of \<open>gprsState\<close>,
  with repetitions of the same state merged, form an initial segment of the list idle,
  AT, ATE0, CPIN, CREG, CSQ, APN, ATTACH, NETOPEN, ready: the states come in that
  order, none is entered twice and no transition goes back. When the service calls
  are at least 2 s apart (200 ticks; fewer than \<open>2^32\<close> ms) the segment is the whole
  list: one call leaves idle and eight more reach ready. In ready a service call
  changes nothing at all, so it emits nothing.
\<close>

theorem gprs_visits_states_in_order:
  "prefix (remdups_adj (gprs_states ff evs init_state)) gprs_order
   \<and> (length ns = 8 \<and> (\<forall>n\<in>set ns. 200 \<le> n \<and> n \<le> 429496729) \<longrightarrow>
        remdups_adj (gprs_states ff (EvGprs # paced EvGprs ns) init_state) = gprs_order)
   \<and> (gprsState s = GPRS_READY \<longrightarrow> gprs_fsm s = s)"
proof (intro conjI impI)
  show "prefix (remdups_adj (gprs_states ff evs init_state)) gprs_order"
    using gprs_states_prefix [of ff evs init_state] by (simp add: init_state_def)
  show "remdups_adj (gprs_states ff (EvGprs # paced EvGprs ns) init_state) = gprs_order"
    if "length ns = 8 \<and> (\<forall>n\<in>set ns. 200 \<le> n \<and> n \<le> 429496729)"
    using that gprs_full_order [of ns ff] by blast
  show "gprs_fsm s = s" if "gprsState s = GPRS_READY"
    using that by (simp add: gprs_fsm_def Let_def)
qed

text \<open>Service calls every 2 s from start-up visit all ten states; a ready state is fixed.\<close>

theorem gprs_visits_states_in_order_witness:
  "length (replicate 8 (200::nat)) = 8
   \<and> remdups_adj (gprs_states printf_f (EvGprs # paced EvGprs (replicate 8 200)) init_state)
       = gprs_order
   \<and> gprsState (init_state\<lparr>gprsState := GPRS_READY, gprsReady := True\<rparr>) = GPRS_READY
   \<and> gprs_fsm (init_state\<lparr>gprsState := GPRS_READY, gprsReady := True\<rparr>)
       = init_state\<lparr>gprsState := GPRS_READY, gprsReady := True\<rparr>"
  using gprs_visits_states_in_order [of printf_f "[]" "replicate 8 200"
          "init_state\<lparr>gprsState := GPRS_READY, gprsReady := True\<rparr>"]
  by simp

text \<open>
  Claim C4 says that every transition of the bring-up sequencer, the one out of idle
  included, waits for the command delay. The transition out of idle does not: the
  \<^verbatim>\<open>GPRS_IDLE\<close> case has no comparison, and the first service call after start-up
  leaves idle with no time elapsed at all.
\<close>

theorem gprs_idle_leaves_without_delay:
  "gprsState init_state = GPRS_IDLE
   \<and> gprsState (gprs_fsm init_state) = GPRS_AT
   \<and> millis init_state - gprsTimer init_state = 0
   \<and> \<not> (COMMAND_DELAY_MS \<le> millis init_state - gprsTimer init_state)"
  by (simp add: init_state_def gprs_fsm_def Let_def millis_def COMMAND_DELAY_MS_def
        uart1_send_str_eq)

text \<open>
  Claim C4, amended. Every transition out of a state other than idle happens only when
  \<open>now - gprsTimer\<close> is at least \<open>COMMAND_DELAY_MS\<close>, and before that a service call
  changes nothing; the transition out of idle is taken by the first service call,
  with no delay. \<open>gprsTimer\<close> is the time of entry into the current state: every
  transition into one of the states AT to NETOPEN stores the current time in it, a
  service call that makes no transition changes nothing, and no other step of the
  program touches the timer or the state.
\<close>

theorem gprs_transitions_gated_after_idle:
  "(gprsState s \<noteq> GPRS_IDLE \<and> gprsState (gprs_fsm s) \<noteq> gprsState s
      \<longrightarrow> COMMAND_DELAY_MS \<le> millis s - gprsTimer s)
   \<and> (gprsState s \<noteq> GPRS_IDLE \<and> millis s - gprsTimer s < COMMAND_DELAY_MS
      \<longrightarrow> gprs_fsm s = s)
   \<and> (gprsState s = GPRS_IDLE \<and> \<not> gprsReady s \<longrightarrow> gprsState (gprs_fsm s) = GPRS_AT)
   \<and> (gprsState (gprs_fsm s) \<noteq> gprsState s \<and> gprsState (gprs_fsm s) \<noteq> GPRS_READY
      \<longrightarrow> gprsTimer (gprs_fsm s) = millis s)
   \<and> (gprsState (gprs_fsm s) = gprsState s \<longrightarrow> gprs_fsm s = s)
   \<and> (e \<noteq> EvGprs \<and> step ff e s = Inr t
      \<longrightarrow> gprsState t = gprsState s \<and> gprsTimer t = gprsTimer s)"
proof (intro conjI impI)
  show "COMMAND_DELAY_MS \<le> millis s - gprsTimer s"
    if "gprsState s \<noteq> GPRS_IDLE \<and> gprsState (gprs_fsm s) \<noteq> gprsState s"
    using that by (cases "gprsState s") (simp_all add: gprs_fsm_def Let_def split: if_splits)
  show "gprs_fsm s = s"
    if "gprsState s \<noteq> GPRS_IDLE \<and> millis s - gprsTimer s < COMMAND_DELAY_MS"
    using that by (cases "gprsState s") (simp_all add: gprs_fsm_def Let_def not_le)
  show "gprsState (gprs_fsm s) = GPRS_AT" if "gprsState s = GPRS_IDLE \<and> \<not> gprsReady s"
    using that by (simp add: gprs_fsm_def Let_def uart1_send_str_eq)
  show "gprsTimer (gprs_fsm s) = millis s"
    if "gprsState (gprs_fsm s) \<noteq> gprsState s \<and> gprsState (gprs_fsm s) \<noteq> GPRS_READY"
    using that
    by (cases "gprsState s")
       (simp_all add: gprs_fsm_def Let_def uart1_send_str_eq split: if_splits)
  show "gprs_fsm s = s" if same: "gprsState (gprs_fsm s) = gprsState s"
  proof (cases "gprsReady s")
    case True
    then show ?thesis by (simp add: gprs_fsm_def)
  next
    case False
    show ?thesis
    proof (cases "gprsState s = GPRS_IDLE
        \<or> (gprsState s \<noteq> GPRS_READY \<and> COMMAND_DELAY_MS \<le> millis s - gprsTimer s)")
      case True
      then have "gprsState (gprs_fsm s) \<noteq> gprsState s"
        using False
        by (cases "gprsState s") (simp_all add: gprs_fsm_def Let_def uart1_send_str_eq)
      then show ?thesis using same by simp
    next
      case stay: False
      then show ?thesis
        using False by (cases "gprsState s") (simp_all add: gprs_fsm_def Let_def)
    qed
  qed
  show "gprsState t = gprsState s" if "e \<noteq> EvGprs \<and> step ff e s = Inr t"
  proof (cases e)
    case (EvRx b)
    then show ?thesis using that rx_frame [of b s t] by simp
  next
    case EvHttp
    then show ?thesis using that http_fsm_gprs_fields [of ff s] by auto
  qed (use that in \<open>auto simp: TIMER0_OVF_vect_def main_poll_def uart0_send_def\<close>)
  show "gprsTimer t = gprsTimer s" if "e \<noteq> EvGprs \<and> step ff e s = Inr t"
  proof (cases e)
    case (EvRx b)
    then show ?thesis using that rx_frame [of b s t] by simp
  next
    case EvHttp
    then show ?thesis using that http_fsm_gprs_fields [of ff s] by auto
  qed (use that in \<open>auto simp: TIMER0_OVF_vect_def main_poll_def uart0_send_def\<close>)
qed

text \<open>
  In AT: 2000 ms after the timestamp the machine moves on and stamps the new state
  with the time of the call, 1990 ms after it does nothing; a timer tick leaves state
  and timestamp alone.
\<close>

theorem gprs_transitions_gated_after_idle_witness:
  "gprsState (init_state\<lparr>gprsState := GPRS_AT, millisCnt := 2000\<rparr>) \<noteq> GPRS_IDLE
   \<and> gprsState (gprs_fsm (init_state\<lparr>gprsState := GPRS_AT, millisCnt := 2000\<rparr>)) = GPRS_ATE0
   \<and> COMMAND_DELAY_MS \<le> millis (init_state\<lparr>gprsState := GPRS_AT, millisCnt := 2000\<rparr>)
                            - gprsTimer (init_state\<lparr>gprsState := GPRS_AT, millisCnt := 2000\<rparr>)
   \<and> gprsTimer (gprs_fsm (init_state\<lparr>gprsState := GPRS_AT, millisCnt := 2000\<rparr>)) = 2000
   \<and> millis (init_state\<lparr>gprsState := GPRS_AT, millisCnt := 1990\<rparr>)
        - gprsTimer (init_state\<lparr>gprsState := GPRS_AT, millisCnt := 1990\<rparr>) < COMMAND_DELAY_MS
   \<and> gprs_fsm (init_state\<lparr>gprsState := GPRS_AT, millisCnt := 1990\<rparr>)
        = init_state\<lparr>gprsState := GPRS_AT, millisCnt := 1990\<rparr>
   \<and> gprsState init_state = GPRS_IDLE \<and> \<not> gprsReady init_state
   \<and> gprsState (gprs_fsm init_state) = GPRS_AT
   \<and> gprsTimer (gprs_fsm init_state) = millis init_state
   \<and> step printf_f EvTimer0 (init_state\<lparr>gprsState := GPRS_AT, millisCnt := 1990\<rparr>)
        = Inr (init_state\<lparr>gprsState := GPRS_AT, millisCnt := 1990, tick10ms := 1,
                 millisCnt := 2000\<rparr>)
   \<and> gprsTimer (init_state\<lparr>gprsState := GPRS_AT, millisCnt := 1990, tick10ms := 1,
                 millisCnt := 2000\<rparr>)
        = gprsTimer (init_state\<lparr>gprsState := GPRS_AT, millisCnt := 1990\<rparr>)"
proof -
  let ?a = "init_state\<lparr>gprsState := GPRS_AT, millisCnt := 2000\<rparr>"
  let ?b = "init_state\<lparr>gprsState := GPRS_AT, millisCnt := 1990\<rparr>"
  let ?c = "init_state\<lparr>gprsState := GPRS_AT, millisCnt := 1990, tick10ms := 1,
              millisCnt := 2000\<rparr>"
  have a: "gprsState ?a \<noteq> GPRS_IDLE" "gprsState (gprs_fsm ?a) = GPRS_ATE0"
    "millis ?a = 2000"
    by (simp_all add: init_state_def gprs_fsm_def Let_def millis_def COMMAND_DELAY_MS_def
          uart1_send_str_eq)
  have b: "gprsState ?b \<noteq> GPRS_IDLE" "millis ?b - gprsTimer ?b < COMMAND_DELAY_MS"
    by (simp_all add: init_state_def millis_def COMMAND_DELAY_MS_def)
  have c: "gprsState init_state = GPRS_IDLE" "\<not> gprsReady init_state"
    by (simp_all add: init_state_def)
  have d: "step printf_f EvTimer0 ?b = Inr ?c" "EvTimer0 \<noteq> EvGprs"
    by (simp_all add: TIMER0_OVF_vect_def init_state_def)
  show ?thesis
    using gprs_transitions_gated_after_idle [of ?a] gprs_transitions_gated_after_idle [of ?b]
      gprs_transitions_gated_after_idle [of init_state]
      gprs_transitions_gated_after_idle [of ?b EvTimer0 printf_f ?c] a b c d
    by simp
qed

section \<open>Uplink sequencer\<close>

text \<open>
  Claim C5. A service call made while the modem-ready flag or the frame-ready flag is
  false returns the state as it was: no field changes and nothing is emitted. So the
  sequencer leaves idle only on a call at which both flags are true.
\<close>

theorem http_idle_needs_both_flags:
  "(\<not> gprsReady s \<or> \<not> frameReady s \<longrightarrow> http_fsm ff s = s)
   \<and> (httpState s = HTTP_IDLE \<and> httpState (http_fsm ff s) \<noteq> HTTP_IDLE
        \<longrightarrow> gprsReady s \<and> frameReady s)"
proof -
  have g: "http_fsm ff s = s" if "\<not> gprsReady s \<or> \<not> frameReady s"
    using that by (simp add: http_fsm_def)
  show ?thesis
  proof (intro conjI impI)
    show "http_fsm ff s = s" if "\<not> gprsReady s \<or> \<not> frameReady s"
      using that by (rule g)
    show "gprsReady s" if "httpState s = HTTP_IDLE \<and> httpState (http_fsm ff s) \<noteq> HTTP_IDLE"
      using that g by (cases "gprsReady s") auto
    show "frameReady s" if "httpState s = HTTP_IDLE \<and> httpState (http_fsm ff s) \<noteq> HTTP_IDLE"
      using that g by (cases "frameReady s") auto
  qed
qed

text \<open>
  Without a frame, and without the modem, the call does nothing; with both it starts a
  cycle.
\<close>

theorem http_idle_needs_both_flags_witness:
  "\<not> frameReady modem_up \<and> http_fsm printf_f modem_up = modem_up
   \<and> \<not> gprsReady init_state \<and> http_fsm printf_f init_state = init_state
   \<and> httpState frame_waiting = HTTP_IDLE
   \<and> httpState (http_fsm printf_f frame_waiting) = HTTP_TERM
   \<and> gprsReady frame_waiting \<and> frameReady frame_waiting"
proof -
  have a: "\<not> frameReady modem_up" "\<not> gprsReady init_state"
    by (simp_all add: modem_up_def init_state_def)
  have b: "gprsReady frame_waiting" "frameReady frame_waiting"
    "httpState frame_waiting = HTTP_IDLE"
    by (simp_all add: frame_waiting_def modem_up_def init_state_def)
  have c: "httpState (http_fsm printf_f frame_waiting) = HTTP_TERM"
    using http_start [OF b] by simp
  show ?thesis
    using http_idle_needs_both_flags [of modem_up printf_f]
      http_idle_needs_both_flags [of init_state printf_f]
      http_idle_needs_both_flags [of frame_waiting printf_f] a b c
    by simp
qed

text \<open>
  Claim C1. A started cycle should reach complete and return to idle within a bounded
  number of service calls, given enough time; the complete state has a timed exit for
  that (\<^verbatim>\<open>httpState = HTTP_IDLE; /* Return to idle, ready for next frame */\<close>). The
  code does not get there. The guard at the head of \<^verbatim>\<open>http_fsm\<close> stands before the
  switch, and the transition into complete clears the frame-ready flag, so in complete
  the guard returns before the timed exit is looked at. After the first upload of the
  device (bring-up, one frame, one cycle) the delay of complete has passed, the
  service call changes nothing, and any number of further service calls, however long
  the waits between them, finds the machine in complete.
\<close>

theorem http_cycle_stalls_in_complete:
  "(case run printf_f first_upload_events init_state of
      Inl f \<Rightarrow> False
    | Inr s \<Rightarrow> httpState s = HTTP_COMPLETE \<and> HTTP_DELAY_MS \<le> millis s - httpTimer s
               \<and> step printf_f EvHttp s = Inr s)
   \<and> (\<forall>ns. (case run printf_f (first_upload_events @ paced EvHttp ns) init_state of
           Inl f \<Rightarrow> False
         | Inr s \<Rightarrow> httpState s = HTTP_COMPLETE \<and> \<not> frameReady s))"
proof
  obtain s where s: "run printf_f first_upload_events init_state = Inr s"
      "httpState s = HTTP_COMPLETE" "\<not> frameReady s" "millisCnt s = httpTimer s + 3000"
    using first_upload [of printf_f] by blast
  have "HTTP_DELAY_MS \<le> millis s - httpTimer s"
    using s(4) by (simp add: millis_def HTTP_DELAY_MS_def)
  moreover have "step printf_f EvHttp s = Inr s" using s(3) by (simp add: http_fsm_def)
  ultimately show "case run printf_f first_upload_events init_state of
      Inl f \<Rightarrow> False
    | Inr s \<Rightarrow> httpState s = HTTP_COMPLETE \<and> HTTP_DELAY_MS \<le> millis s - httpTimer s
               \<and> step printf_f EvHttp s = Inr s"
    using s(1,2) by simp
  show "\<forall>ns. (case run printf_f (first_upload_events @ paced EvHttp ns) init_state of
           Inl f \<Rightarrow> False
         | Inr s \<Rightarrow> httpState s = HTTP_COMPLETE \<and> \<not> frameReady s)"
  proof
    fix ns
    obtain s' where "run printf_f (paced EvHttp ns) s = Inr s'"
        "httpState s' = HTTP_COMPLETE" "\<not> frameReady s'"
      using http_stalled [OF s(2,3), of printf_f ns] by blast
    then show "case run printf_f (first_upload_events @ paced EvHttp ns) init_state of
           Inl f \<Rightarrow> False
         | Inr s \<Rightarrow> httpState s = HTTP_COMPLETE \<and> \<not> frameReady s"
      using s(1) by (simp add: run_append)
  qed
qed

text \<open>
  Claim C10 says that from complete the first service call at which both flags hold
  returns to idle at once. The gate of complete compares the counter with the
  timestamp taken on entering execute, modulo \<open>2^32\<close>, so it closes again each time the
  counter passes that timestamp. After the first upload, let 429496430 ticks pass with
  no frame from the meter: the counter is then 4 ms past the timestamp. A frame
  arrives, both flags hold, and the service call leaves the machine in complete.
\<close>

theorem complete_gate_closed_after_rollover:
  "(case run printf_f
           (first_upload_events @ replicate 429496430 EvTimer0 @ map EvRx scenario_frame)
           init_state of
      Inl f \<Rightarrow> False
    | Inr s \<Rightarrow> httpState s = HTTP_COMPLETE \<and> gprsReady s \<and> frameReady s
               \<and> httpState (http_fsm printf_f s) = HTTP_COMPLETE)"
proof -
  obtain s where s: "run printf_f first_upload_events init_state = Inr s"
      "httpState s = HTTP_COMPLETE" "gprsReady s" "millisCnt s = httpTimer s + 3000"
      "meterIdx s = 0" "length (meterBuf s) = 44"
    using first_upload [of printf_f] by blast
  let ?t = "ticked 429496430 s"
  have t: "run printf_f (replicate 429496430 EvTimer0) s = Inr ?t" by (rule run_ticks)
  have tm: "millisCnt ?t = httpTimer ?t + 4"
    using s(4) by (simp add: ticked_eq)
  have tc: "meterIdx ?t = 0" "length (meterBuf ?t) = 44"
    using s(5,6) by (simp_all add: ticked_eq)
  have len: "length scenario_frame = 44" by (simp add: scenario_frame_def)
  let ?u = "?t\<lparr>meterBuf := scenario_frame,
               frameReady := (frameReady ?t \<or> scenario_frame ! 43 = 0xDD), meterIdx := 0\<rparr>"
  have u: "run printf_f (map EvRx scenario_frame) ?t = Inr ?u"
    unfolding run_feed using tc len by (rule feed_frame)
  have fr: "frameReady ?u" by (simp add: scenario_frame_def nth_append)
  have st: "httpState ?u = HTTP_COMPLETE" "gprsReady ?u" "millisCnt ?u = httpTimer ?u + 4"
    using s(2,3) tm by (simp_all add: ticked_eq)
  have "httpState (http_fsm printf_f ?u) = HTTP_COMPLETE"
    using st fr by (simp add: http_fsm_def Let_def millis_def HTTP_DELAY_MS_def)
  moreover have "run printf_f
      (first_upload_events @ replicate 429496430 EvTimer0 @ map EvRx scenario_frame) init_state
      = Inr ?u"
    using s(1) t u by (simp add: run_append)
  ultimately show ?thesis using st fr by simp
qed

text \<open>
  Claim C10, amended. The transition from execute to complete clears the frame-ready
  flag and keeps the timestamp, so the gate of complete is open on entry. From complete,
  a service call at which both flags hold returns to idle at once provided fewer than
  \<open>2^32\<close> ms have passed since the timestamp (\<open>d\<close> is that time, at least 3000 on
  entry).
\<close>

theorem complete_gate_open_on_entry:
  "(gprsReady s \<and> frameReady s \<and> httpState s = HTTP_ACTION
      \<and> HTTP_DELAY_MS * 2 \<le> millis s - httpTimer s
      \<longrightarrow> http_fsm ff s = s\<lparr>frameReady := False, httpState := HTTP_COMPLETE\<rparr>
          \<and> HTTP_DELAY_MS \<le> millis (http_fsm ff s) - httpTimer (http_fsm ff s))
   \<and> (httpState s = HTTP_COMPLETE \<and> gprsReady s \<and> frameReady s
      \<and> millisCnt s = httpTimer s + of_nat d \<and> 3000 \<le> d \<and> d < 2 ^ 32
      \<longrightarrow> http_fsm ff s = s\<lparr>httpState := HTTP_IDLE\<rparr>)"
proof (intro conjI impI)
  assume a: "gprsReady s \<and> frameReady s \<and> httpState s = HTTP_ACTION
      \<and> HTTP_DELAY_MS * 2 \<le> millis s - httpTimer s"
  then show e: "http_fsm ff s = s\<lparr>frameReady := False, httpState := HTTP_COMPLETE\<rparr>"
    by (simp add: http_fsm_def Let_def)
  have "HTTP_DELAY_MS \<le> HTTP_DELAY_MS * 2" by (simp add: HTTP_DELAY_MS_def)
  then have "HTTP_DELAY_MS \<le> millis s - httpTimer s" using a order_trans by blast
  then show "HTTP_DELAY_MS \<le> millis (http_fsm ff s) - httpTimer (http_fsm ff s)"
    unfolding e by (simp add: millis_def)
next
  assume a: "httpState s = HTTP_COMPLETE \<and> gprsReady s \<and> frameReady s
      \<and> millisCnt s = httpTimer s + of_nat d \<and> 3000 \<le> d \<and> d < 2 ^ 32"
  then have "(HTTP_DELAY_MS \<le> millis s - httpTimer s) = (1500 \<le> d)"
    using gate32 [of d 1500 "httpTimer s"] by (simp add: millis_def HTTP_DELAY_MS_def)
  then show "http_fsm ff s = s\<lparr>httpState := HTTP_IDLE\<rparr>"
    using a by (simp add: http_fsm_def Let_def)
qed

text \<open>
  With the timestamp 1 s before the counter rolls over: the call 3 s later enters
  complete, and a call in complete 5 s after the timestamp returns to idle.
\<close>

theorem complete_gate_open_on_entry_witness:
  "http_fsm printf_f
       (frame_waiting\<lparr>httpState := HTTP_ACTION, httpTimer := before_rollover, millisCnt := 2000\<rparr>)
     = frame_waiting\<lparr>httpState := HTTP_ACTION, httpTimer := before_rollover, millisCnt := 2000,
         frameReady := False, httpState := HTTP_COMPLETE\<rparr>
   \<and> millisCnt (frame_waiting\<lparr>httpState := HTTP_COMPLETE, httpTimer := before_rollover,
                  millisCnt := 4000\<rparr>) = before_rollover + 5000
   \<and> http_fsm printf_f
       (frame_waiting\<lparr>httpState := HTTP_COMPLETE, httpTimer := before_rollover, millisCnt := 4000\<rparr>)
     = frame_waiting\<lparr>httpState := HTTP_COMPLETE, httpTimer := before_rollover, millisCnt := 4000,
         httpState := HTTP_IDLE\<rparr>"
proof -
  let ?x = "frame_waiting\<lparr>httpState := HTTP_ACTION, httpTimer := before_rollover,
              millisCnt := 2000\<rparr>"
  let ?c = "frame_waiting\<lparr>httpState := HTTP_COMPLETE, httpTimer := before_rollover,
              millisCnt := 4000\<rparr>"
  have fw: "gprsReady frame_waiting" "frameReady frame_waiting"
    by (simp_all add: frame_waiting_def modem_up_def init_state_def)
  have x: "HTTP_DELAY_MS * 2 \<le> millis ?x - httpTimer ?x"
    by (simp add: millis_def HTTP_DELAY_MS_def before_rollover_def)
  have c: "millisCnt ?c = httpTimer ?c + of_nat 5000" by (simp add: before_rollover_def)
  show ?thesis
    using complete_gate_open_on_entry [of ?x printf_f]
      complete_gate_open_on_entry [of ?c printf_f 5000] fw x c
    by simp
qed

section \<open>The formatted request\<close>

text \<open>
  Claim C7. Whatever the 44 bytes of the frame, and whatever text the float conversions
  produce, \<^verbatim>\<open>build_http_url\<close> leaves a buffer of 256 bytes a buffer of 256 bytes: it
  stores at most the first 255 characters of the formatted text, a NUL right after
  them, and nothing beyond the buffer; no other field changes. The string later sent
  from the buffer is at most 255 characters long.
\<close>

theorem url_never_overflows_buffer:
  assumes "length (httpUrl s) = URL_BUF_LEN"
  shows "length (httpUrl (build_http_url ff s)) = URL_BUF_LEN
     \<and> httpUrl (build_http_url ff s)
          ! min (length (url_text ff (meterBuf s))) (URL_BUF_LEN - 1) = NUL
     \<and> take (min (length (url_text ff (meterBuf s))) (URL_BUF_LEN - 1))
          (httpUrl (build_http_url ff s))
         = take (URL_BUF_LEN - 1) (url_text ff (meterBuf s))
     \<and> length (takeWhile (\<lambda>c. c \<noteq> NUL) (httpUrl (build_http_url ff s))) \<le> URL_BUF_LEN - 1
     \<and> build_http_url ff s = s\<lparr>httpUrl := httpUrl (build_http_url ff s)\<rparr>"
proof -
  have l: "length (httpUrl s) = Suc 255" using assms by (simp add: URL_BUF_LEN_def)
  have u: "httpUrl (build_http_url ff s)
             = snprintf (httpUrl s) (Suc 255) (url_text ff (meterBuf s))"
    by (simp add: build_http_url_def URL_BUF_LEN_def)
  show ?thesis
    unfolding u using snprintf_bounded [OF l, of "url_text ff (meterBuf s)"]
    by (simp add: URL_BUF_LEN_def build_http_url_def)
qed

text \<open>
  The scenario frame gives 127 characters and a NUL at offset 127; a conversion that
  floods the format with 300 characters per field is cut at 255.
\<close>

theorem url_never_overflows_buffer_witness:
  "length (httpUrl frame_waiting) = URL_BUF_LEN
   \<and> length (httpUrl (build_http_url printf_f frame_waiting)) = 256
   \<and> httpUrl (build_http_url printf_f frame_waiting) ! 127 = NUL
   \<and> take 127 (httpUrl (build_http_url printf_f frame_waiting))
       = ''http://2e40139af09b.ngrok-free.app/meter?v=230.00&c=5.000&pf=0.98&l=1.23456&k=456.78&f=50.0&d=01-01-24%2012:00:00&s=atmega328pb''
   \<and> length (httpUrl (build_http_url flood frame_waiting)) = 256
   \<and> httpUrl (build_http_url flood frame_waiting) ! 255 = NUL"
proof -
  have l: "length (httpUrl frame_waiting) = URL_BUF_LEN"
    by (simp add: frame_waiting_def modem_up_def init_state_def URL_BUF_LEN_def)
  have m: "meterBuf frame_waiting = scenario_frame" by (simp add: frame_waiting_def)
  have n1: "min (length (url_text printf_f scenario_frame)) (URL_BUF_LEN - 1) = 127"
    by (simp add: url_text_scenario_length URL_BUF_LEN_def)
  have "255 \<le> length (url_text flood scenario_frame)"
    by (simp add: url_text_def flood_def)
  then have n2: "min (length (url_text flood scenario_frame)) (URL_BUF_LEN - 1) = 255"
    by (simp add: URL_BUF_LEN_def)
  have t: "take 255 (url_text printf_f scenario_frame)
             = url_text printf_f scenario_frame"
    by (simp add: url_text_scenario_length)
  show ?thesis
    using url_never_overflows_buffer [OF l, of printf_f]
      url_never_overflows_buffer [OF l, of flood] l
    unfolding m n1 n2 by (simp add: URL_BUF_LEN_def t url_text_scenario)
qed


section \<open>Delay arithmetic\<close>

text \<open>
  Claim C8. Each delay test is an unsigned subtraction of the timestamp from the
  counter, compared with the threshold, and it gives the right answer across a
  rollover of the counter. With \<open>d\<close> the time that has really passed since the
  timestamp was taken (less than the counter's range), the bring-up gates fire exactly
  when \<open>d\<close> is at least 2000, the upload gates when it is at least 1500 (3000 in
  execute), and the poll block, whose 16-bit timer holds the low half of the tick
  count \<open>t0\<close>, exactly when at least 100 ticks have passed.
\<close>

theorem delay_gates_survive_rollover:
  "(d < 2 ^ 32 \<and> \<not> gprsReady s \<and> gprsState s \<noteq> GPRS_IDLE \<and> gprsState s \<noteq> GPRS_READY
      \<and> millisCnt s = gprsTimer s + of_nat d
      \<longrightarrow> (gprsState (gprs_fsm s) \<noteq> gprsState s) = (2000 \<le> d))
   \<and> (d < 2 ^ 32 \<and> gprsReady s \<and> frameReady s \<and> httpState s \<noteq> HTTP_IDLE
      \<and> httpState s \<noteq> HTTP_ACTION \<and> millisCnt s = httpTimer s + of_nat d
      \<longrightarrow> (httpState (http_fsm ff s) \<noteq> httpState s) = (1500 \<le> d))
   \<and> (d < 2 ^ 32 \<and> gprsReady s \<and> frameReady s \<and> httpState s = HTTP_ACTION
      \<and> millisCnt s = httpTimer s + of_nat d
      \<longrightarrow> (httpState (http_fsm ff s) \<noteq> httpState s) = (3000 \<le> d))
   \<and> (d < 2 ^ 16 \<and> meterKickTimer s = ucast t0 \<and> tick10ms s = t0 + of_nat d
      \<longrightarrow> (main_poll s \<noteq> s) = (100 \<le> d))"
proof (intro conjI impI)
  show "(gprsState (gprs_fsm s) \<noteq> gprsState s) = (2000 \<le> d)"
    if "d < 2 ^ 32 \<and> \<not> gprsReady s \<and> gprsState s \<noteq> GPRS_IDLE \<and> gprsState s \<noteq> GPRS_READY
      \<and> millisCnt s = gprsTimer s + of_nat d"
  proof -
    have "(COMMAND_DELAY_MS \<le> millis s - gprsTimer s) = (2000 \<le> d)"
      using that gate32 [of d 2000 "gprsTimer s"] by (simp add: millis_def COMMAND_DELAY_MS_def)
    then show ?thesis using that
      by (cases "gprsState s") (simp_all add: gprs_fsm_def Let_def uart1_send_str_eq)
  qed
  show "(httpState (http_fsm ff s) \<noteq> httpState s) = (1500 \<le> d)"
    if "d < 2 ^ 32 \<and> gprsReady s \<and> frameReady s \<and> httpState s \<noteq> HTTP_IDLE
      \<and> httpState s \<noteq> HTTP_ACTION \<and> millisCnt s = httpTimer s + of_nat d"
  proof -
    have "(HTTP_DELAY_MS \<le> millis s - httpTimer s) = (1500 \<le> d)"
      using that gate32 [of d 1500 "httpTimer s"] by (simp add: millis_def HTTP_DELAY_MS_def)
    then show ?thesis using that
      by (cases "httpState s") (simp_all add: http_fsm_def Let_def uart1_send_str_eq)
  qed
  show "(httpState (http_fsm ff s) \<noteq> httpState s) = (3000 \<le> d)"
    if "d < 2 ^ 32 \<and> gprsReady s \<and> frameReady s \<and> httpState s = HTTP_ACTION
      \<and> millisCnt s = httpTimer s + of_nat d"
  proof -
    have "(HTTP_DELAY_MS * 2 \<le> millis s - httpTimer s) = (3000 \<le> d)"
      using that gate32 [of d 3000 "httpTimer s"] by (simp add: millis_def HTTP_DELAY_MS_def)
    then show ?thesis using that
      by (simp add: http_fsm_def Let_def)
  qed
  show "(main_poll s \<noteq> s) = (100 \<le> d)"
    if "d < 2 ^ 16 \<and> meterKickTimer s = ucast t0 \<and> tick10ms s = t0 + of_nat d"
  proof -
    have g: "((100::u16) \<le> ucast (tick10ms s - ucast (meterKickTimer s))) = (100 \<le> d)"
      using that gate16 [of d t0] by simp
    show ?thesis
    proof (cases "100 \<le> d")
      case True
      then have "uart0_tx (main_poll s) = uart0_tx s @ [0xCC, 0x91, 0xDD]"
        using g by (simp add: main_poll_def main_poll_fires)
      then have "main_poll s \<noteq> s" by auto
      then show ?thesis using True by simp
    next
      case False
      then show ?thesis using g by (simp add: main_poll_def)
    qed
  qed
qed

text \<open>
  Timestamps taken 1 s (50 ticks) before the counter rolls over, read after it has:
  each gate fires at its threshold and not 10 ms (one tick) earlier.
\<close>

theorem delay_gates_survive_rollover_witness:
  "millisCnt (init_state\<lparr>gprsState := GPRS_AT, gprsTimer := before_rollover, millisCnt := 1000\<rparr>)
     = before_rollover + 2000
   \<and> gprsState (gprs_fsm
        (init_state\<lparr>gprsState := GPRS_AT, gprsTimer := before_rollover, millisCnt := 1000\<rparr>))
       = GPRS_ATE0
   \<and> gprsState (gprs_fsm
        (init_state\<lparr>gprsState := GPRS_AT, gprsTimer := before_rollover, millisCnt := 990\<rparr>))
       = GPRS_AT
   \<and> httpState (http_fsm printf_f
        (frame_waiting\<lparr>httpState := HTTP_TERM, httpTimer := before_rollover, millisCnt := 500\<rparr>))
       = HTTP_INIT
   \<and> httpState (http_fsm printf_f
        (frame_waiting\<lparr>httpState := HTTP_ACTION, httpTimer := before_rollover, millisCnt := 1990\<rparr>))
       = HTTP_ACTION
   \<and> httpState (http_fsm printf_f
        (frame_waiting\<lparr>httpState := HTTP_ACTION, httpTimer := before_rollover, millisCnt := 2000\<rparr>))
       = HTTP_COMPLETE
   \<and> main_poll (init_state\<lparr>meterKickTimer := 0xFFCE, tick10ms := 50\<rparr>)
       \<noteq> init_state\<lparr>meterKickTimer := 0xFFCE, tick10ms := 50\<rparr>
   \<and> main_poll (init_state\<lparr>meterKickTimer := 0xFFCE, tick10ms := 49\<rparr>)
       = init_state\<lparr>meterKickTimer := 0xFFCE, tick10ms := 49\<rparr>"
proof -
  let ?g = "init_state\<lparr>gprsState := GPRS_AT, gprsTimer := before_rollover, millisCnt := 1000\<rparr>"
  let ?g' = "init_state\<lparr>gprsState := GPRS_AT, gprsTimer := before_rollover, millisCnt := 990\<rparr>"
  let ?h = "frame_waiting\<lparr>httpState := HTTP_TERM, httpTimer := before_rollover,
              millisCnt := 500\<rparr>"
  let ?a' = "frame_waiting\<lparr>httpState := HTTP_ACTION, httpTimer := before_rollover,
               millisCnt := 1990\<rparr>"
  let ?a = "frame_waiting\<lparr>httpState := HTTP_ACTION, httpTimer := before_rollover,
              millisCnt := 2000\<rparr>"
  let ?p = "init_state\<lparr>meterKickTimer := 0xFFCE, tick10ms := 50\<rparr>"
  let ?p' = "init_state\<lparr>meterKickTimer := 0xFFCE, tick10ms := 49\<rparr>"
  have fw: "gprsReady frame_waiting" "frameReady frame_waiting"
    by (simp_all add: frame_waiting_def modem_up_def init_state_def)
  have g: "gprsState (gprs_fsm ?g) = GPRS_ATE0" "gprsState (gprs_fsm ?g') = GPRS_AT"
    using delay_gates_survive_rollover [of 2000 ?g] delay_gates_survive_rollover [of 1990 ?g']
    by (simp_all add: init_state_def before_rollover_def gprs_fsm_def Let_def millis_def
          COMMAND_DELAY_MS_def uart1_send_str_eq)
  have h: "httpState (http_fsm printf_f ?h) = HTTP_INIT"
    "httpState (http_fsm printf_f ?a') = HTTP_ACTION"
    "httpState (http_fsm printf_f ?a) = HTTP_COMPLETE"
    using fw delay_gates_survive_rollover [of 1500 ?h printf_f]
      delay_gates_survive_rollover [of 3000 ?a printf_f]
    by (simp_all add: before_rollover_def http_fsm_def Let_def millis_def
          HTTP_DELAY_MS_def uart1_send_str_eq)
  have p: "main_poll ?p \<noteq> ?p" "main_poll ?p' = ?p'"
    using delay_gates_survive_rollover [of 100 ?p _ "0xFFFFFFCE"]
      delay_gates_survive_rollover [of 99 ?p' _ "0xFFFFFFCE"]
    by (simp_all add: init_state_def)
  have m: "millisCnt ?g = before_rollover + 2000" by (simp add: before_rollover_def)
  show ?thesis using g h p m by simp
qed

end
